theory Spec2Isabelle
  imports Main
begin

section \<open>Text values\<close>

text \<open>
  A Python \<open>str\<close> is a sequence of Unicode code points, so text is modelled as a list of
  code points. \<open>ustr_of\<close> reads an ASCII literal.
\<close>

type_synonym ustr = "nat list"

definition ustr_of :: "string \<Rightarrow> ustr" where
  "ustr_of s = map of_char s"

text \<open>
  \<open>str.strip()\<close> removes leading and trailing white space; \<open>is_space\<close> lists the code
  points for which \<open>str.isspace\<close> holds.
\<close>

definition is_space :: "nat \<Rightarrow> bool" where
  "is_space c \<longleftrightarrow>
     (9 \<le> c \<and> c \<le> 13) \<or> (28 \<le> c \<and> c \<le> 32) \<or> c = 133 \<or> c = 160 \<or> c = 5760
     \<or> (8192 \<le> c \<and> c \<le> 8202) \<or> c = 8232 \<or> c = 8233 \<or> c = 8239 \<or> c = 8287 \<or> c = 12288"

definition strip :: "ustr \<Rightarrow> ustr" where
  "strip s = rev (dropWhile is_space (rev (dropWhile is_space s)))"

definition startswith :: "ustr \<Rightarrow> ustr \<Rightarrow> bool" where
  "startswith s p \<longleftrightarrow> take (length p) s = p"

text \<open>\<open>s.find(sub)\<close>: the lowest index where \<open>sub\<close> starts in \<open>s\<close>, or \<open>-1\<close>.\<close>

fun find_from :: "nat \<Rightarrow> ustr \<Rightarrow> ustr \<Rightarrow> nat option" where
  "find_from i sub [] = (if sub = [] then Some i else None)"
| "find_from i sub (x # xs) =
     (if startswith (x # xs) sub then Some i else find_from (Suc i) sub xs)"

definition str_find :: "ustr \<Rightarrow> ustr \<Rightarrow> int" where
  "str_find s sub = (case find_from 0 sub s of None \<Rightarrow> - 1 | Some i \<Rightarrow> int i)"

text \<open>\<open>s.split(sep)\<close> for a separator of one character.\<close>

fun split_on :: "nat \<Rightarrow> ustr \<Rightarrow> ustr list" where
  "split_on sep [] = [[]]"
| "split_on sep (x # xs) =
     (if x = sep then [] # split_on sep xs
      else (x # hd (split_on sep xs)) # tl (split_on sep xs))"

text \<open>\<open>sep.join(parts)\<close>.\<close>

fun join :: "ustr \<Rightarrow> ustr list \<Rightarrow> ustr" where
  "join sep [] = []"
| "join sep [x] = x"
| "join sep (x # y # ys) = x @ sep @ join sep (y # ys)"

section \<open>Errors\<close>

text \<open>
  The exceptions that leave the functions modelled here: \<open>UnicodeEncodeError\<close> from
  \<open>str.encode("latin-1")\<close>, \<open>sqlite3.IntegrityError\<close> from an \<open>INSERT\<close> that repeats a
  primary key, and \<open>sqlite3.OperationalError\<close> for a storage operation that fails.
\<close>

datatype error = UnicodeEncodeError | IntegrityError | OperationalError

section \<open>Configuration constants\<close>

definition COLUMNS :: "ustr list" where
  "COLUMNS = [ustr_of ''EmpRUC'', ustr_of ''EmpRazonSocial'', ustr_of ''EmpNom'',
     ustr_of ''RepFecha'', ustr_of ''RepLiqEstadoConsulta'', ustr_of ''RepDetalleRechazo'']"

definition FALLBACK_POSITIONS :: "nat list" where
  "FALLBACK_POSITIONS = [0, 12, 124, 165, 189, 209]"

text \<open>
  The one ignorable rejection reason: the sentence \<open>En la fecha de resumen del reporte la
  condicion de emisor electronico no estaba vigente\<close>, written with o acute (code point 243)
  as the last vowel of \<open>condicion\<close> and as the fifth letter of \<open>electronico\<close>.
\<close>

definition IGNORED_DETAIL_PREFIXES_RAW :: "ustr list" where
  "IGNORED_DETAIL_PREFIXES_RAW =
     [ustr_of ''En la fecha de resumen del reporte la condici'' @ [243] @
      ustr_of ''n de emisor electr'' @ [243] @ ustr_of ''nico no estaba vigente'']"

section \<open>Text repair and normalisation\<close>

text \<open>
  \<open>unicodedata\<close> is the interpreter's Unicode database, not code of this program: the
  canonical decomposition, the test for category \<open>Mn\<close> and \<open>str.lower\<close> are taken as
  parameters, so that every theorem holds for whatever tables the interpreter ships.
\<close>

record unicode_db =
  nfd :: "ustr \<Rightarrow> ustr"
  is_Mn :: "nat \<Rightarrow> bool"
  lower :: "ustr \<Rightarrow> ustr"

definition normalize_detail :: "unicode_db \<Rightarrow> ustr \<Rightarrow> ustr" where
  "normalize_detail U text =
     (if text = [] then []
      else let normalized = nfd U text;
               stripped = filter (\<lambda>ch. \<not> is_Mn U ch) normalized
           in strip (lower U stripped))"

text \<open>
  \<open>value.encode("latin-1")\<close> gives one byte per code point below 256 and raises
  \<open>UnicodeEncodeError\<close> otherwise; \<open>bytes.decode("utf-8")\<close> is the strict decoder, which
  refuses stray continuation bytes, overlong forms, surrogates and values beyond
  \<open>0x10FFFF\<close> with \<open>UnicodeDecodeError\<close> (\<open>None\<close> here).
\<close>

definition encode_latin1 :: "ustr \<Rightarrow> nat list option" where
  "encode_latin1 v = (if \<forall>c \<in> set v. c < 256 then Some v else None)"

definition is_cont :: "nat \<Rightarrow> bool" where
  "is_cont b \<longleftrightarrow> 128 \<le> b \<and> b < 192"

fun decode_utf8 :: "nat list \<Rightarrow> ustr option" where
  "decode_utf8 [] = Some []"
| "decode_utf8 (b # bs) =
     (if b < 128 then map_option ((#) b) (decode_utf8 bs)
      else if 194 \<le> b \<and> b < 224 then
        (case bs of
           c1 # r \<Rightarrow>
             if is_cont c1
             then map_option ((#) ((b - 192) * 64 + (c1 - 128))) (decode_utf8 r)
             else None
         | _ \<Rightarrow> None)
      else if 224 \<le> b \<and> b < 240 then
        (case bs of
           c1 # c2 # r \<Rightarrow>
             let cp = (b - 224) * 4096 + (c1 - 128) * 64 + (c2 - 128)
             in if is_cont c1 \<and> is_cont c2 \<and> 2048 \<le> cp \<and> \<not> (55296 \<le> cp \<and> cp < 57344)
                then map_option ((#) cp) (decode_utf8 r)
                else None
         | _ \<Rightarrow> None)
      else if 240 \<le> b \<and> b < 245 then
        (case bs of
           c1 # c2 # c3 # r \<Rightarrow>
             let cp = (b - 240) * 262144 + (c1 - 128) * 4096 + (c2 - 128) * 64 + (c3 - 128)
             in if is_cont c1 \<and> is_cont c2 \<and> is_cont c3 \<and> 65536 \<le> cp \<and> cp < 1114112
                then map_option ((#) cp) (decode_utf8 r)
                else None
         | _ \<Rightarrow> None)
      else None)"

text \<open>
  \<open>fix_text\<close>. The three disjuncts of the marker test are the same literal \<open>"?"\<close> (code
  point 63) in the source file. The handler catches \<open>UnicodeDecodeError\<close> only, so the
  \<open>UnicodeEncodeError\<close> of \<open>encode\<close> leaves the function.
\<close>

definition fix_text :: "ustr option \<Rightarrow> error + ustr" where
  "fix_text value =
     (case value of
        None \<Rightarrow> Inr []
      | Some v \<Rightarrow>
          if v = [] then Inr []
          else if 63 \<in> set v then
            (case encode_latin1 v of
               None \<Rightarrow> Inl UnicodeEncodeError
             | Some bytes \<Rightarrow>
                 (case decode_utf8 bytes of None \<Rightarrow> Inr v | Some t \<Rightarrow> Inr t))
          else Inr v)"

definition IGNORED_DETAIL_PREFIXES :: "unicode_db \<Rightarrow> ustr list" where
  "IGNORED_DETAIL_PREFIXES U = map (normalize_detail U) IGNORED_DETAIL_PREFIXES_RAW"

section \<open>Column layout and fixed-width lines\<close>

fun detect_loop :: "ustr \<Rightarrow> ustr list \<Rightarrow> nat list \<Rightarrow> nat list" where
  "detect_loop header_line [] positions = positions"
| "detect_loop header_line (label # labels) positions =
     (let index = str_find header_line label
      in if index < 0 then FALLBACK_POSITIONS
         else detect_loop header_line labels (positions @ [nat index]))"

definition detect_column_positions :: "ustr \<Rightarrow> nat list" where
  "detect_column_positions header_line = detect_loop header_line COLUMNS []"

text \<open>
  A candidate record is a \<open>dict\<close> from column names to text; \<open>get_field\<close> is
  \<open>record.get(column, "")\<close>.
\<close>

type_synonym candidate = "ustr \<rightharpoonup> ustr"

definition get_field :: "candidate \<Rightarrow> ustr \<Rightarrow> ustr" where
  "get_field r column = (case r column of None \<Rightarrow> [] | Some v \<Rightarrow> v)"

text \<open>
  The loop of \<open>parse_fixed_width_line\<close>: for offsets that are not negative,
  \<open>line[start:end]\<close> is \<open>take (end - start) (drop start line)\<close>, empty when \<open>end \<le> start\<close>.
\<close>

fun slice_values :: "ustr \<Rightarrow> nat list \<Rightarrow> error + ustr list" where
  "slice_values line [] = Inr []"
| "slice_values line (start # rest) =
     (let end_pos = (case rest of [] \<Rightarrow> length line | e # _ \<Rightarrow> e);
          slice_value = (if start \<ge> length line then [] else take (end_pos - start) (drop start line))
      in case fix_text (Some (strip slice_value)) of
           Inl err \<Rightarrow> Inl err
         | Inr v \<Rightarrow>
             (case slice_values line rest of
                Inl err \<Rightarrow> Inl err
              | Inr vs \<Rightarrow> Inr (v # vs)))"

definition parse_fixed_width_line :: "ustr \<Rightarrow> nat list \<Rightarrow> error + candidate option" where
  "parse_fixed_width_line line positions =
     (case slice_values line positions of
        Inl err \<Rightarrow> Inl err
      | Inr values \<Rightarrow>
          if values = [] \<or> hd values = [] then Inr None
          else Inr (Some (map_of (zip COLUMNS
                 (map (\<lambda>idx. if idx < length values then values ! idx else [])
                      [0 ..< length COLUMNS])))))"

section \<open>Identity key and report date\<close>

definition build_key :: "candidate \<Rightarrow> ustr" where
  "build_key r = join (ustr_of ''||'') (map (\<lambda>column. strip (get_field r column)) COLUMNS)"

definition extract_date :: "ustr option \<Rightarrow> ustr option" where
  "extract_date rep_fecha =
     (case rep_fecha of
        None \<Rightarrow> None
      | Some s \<Rightarrow>
          if s = [] then None
          else let candidate = take 10 (strip s)
               in if length candidate \<noteq> 10 then None
                  else (case split_on 45 candidate of
                          [year, month, day] \<Rightarrow> if length year \<noteq> 4 then None else Some candidate
                        | _ \<Rightarrow> None))"

section \<open>The store\<close>

text \<open>
  A row of the table \<open>rows\<close>. The column \<open>sources\<close> holds a JSON list of strings;
  \<open>json.loads\<close> and \<open>json.dumps\<close> are inverse on such lists, and the model keeps the
  list itself. The table is the list of its rows in insertion order; \<open>id\<close> is the primary
  key.
\<close>

record row =
  row_id :: ustr
  row_EmpRUC :: ustr
  row_EmpRazonSocial :: ustr
  row_EmpNom :: ustr
  row_RepFecha :: ustr
  row_RepFechaDate :: "ustr option"
  row_RepLiqEstadoConsulta :: ustr
  row_RepDetalleRechazo :: ustr
  row_detail_normalized :: ustr
  row_resolved :: bool
  row_sources :: "ustr list"
  row_created_at :: int

text \<open>
  A connection of the \<open>sqlite3\<close> module: \<open>committed\<close> is the table in the database file,
  \<open>working\<close> is the table as the connection sees it (the file and the connection's
  uncommitted changes), \<open>ops\<close> counts the storage operations issued so far. \<open>commit\<close>
  writes \<open>working\<close> to the file; \<open>close\<close> gives up whatever was not committed.
\<close>

record conn =
  committed :: "row list"
  working :: "row list"
  ops :: nat

text \<open>
  A fault schedule says which storage operations of a call fail with
  \<open>sqlite3.OperationalError\<close> (disk I/O error, locked database): \<open>F n\<close> holds when the
  operation issued after \<open>n\<close> others fails.
\<close>

type_synonym faults = "nat \<Rightarrow> bool"

definition no_faults :: faults where
  "no_faults = (\<lambda>n. False)"

definition get_connection :: "row list \<Rightarrow> conn" where
  "get_connection db = \<lparr>committed = db, working = db, ops = 0\<rparr>"

definition storage_op :: "faults \<Rightarrow> conn \<Rightarrow> (error \<times> conn) + conn" where
  "storage_op F c = (if F (ops c) then Inl (OperationalError, c) else Inr (c\<lparr>ops := Suc (ops c)\<rparr>))"

definition select_rows :: "faults \<Rightarrow> conn \<Rightarrow> ustr list \<Rightarrow> (error \<times> conn) + (conn \<times> row list)" where
  "select_rows F c chunk =
     (case storage_op F c of
        Inl e \<Rightarrow> Inl e
      | Inr c' \<Rightarrow> Inr (c', filter (\<lambda>r. row_id r \<in> set chunk) (working c')))"

definition update_sources :: "faults \<Rightarrow> conn \<Rightarrow> ustr list \<Rightarrow> ustr \<Rightarrow> (error \<times> conn) + conn" where
  "update_sources F c sources key =
     (case storage_op F c of
        Inl e \<Rightarrow> Inl e
      | Inr c' \<Rightarrow>
          Inr (c'\<lparr>working := map (\<lambda>r. if row_id r = key then r\<lparr>row_sources := sources\<rparr> else r)
                               (working c')\<rparr>))"

definition insert_row :: "faults \<Rightarrow> conn \<Rightarrow> row \<Rightarrow> (error \<times> conn) + conn" where
  "insert_row F c r =
     (case storage_op F c of
        Inl e \<Rightarrow> Inl e
      | Inr c' \<Rightarrow>
          if row_id r \<in> set (map row_id (working c')) then Inl (IntegrityError, c')
          else Inr (c'\<lparr>working := working c' @ [r]\<rparr>))"

fun executemany_insert :: "faults \<Rightarrow> conn \<Rightarrow> row list \<Rightarrow> (error \<times> conn) + conn" where
  "executemany_insert F c [] = Inr c"
| "executemany_insert F c (r # rs) =
     (case insert_row F c r of
        Inl e \<Rightarrow> Inl e
      | Inr c' \<Rightarrow> executemany_insert F c' rs)"

definition commit :: "faults \<Rightarrow> conn \<Rightarrow> (error \<times> conn) + conn" where
  "commit F c =
     (case storage_op F c of
        Inl e \<Rightarrow> Inl e
      | Inr c' \<Rightarrow> Inr (c'\<lparr>committed := working c'\<rparr>))"

definition close :: "conn \<Rightarrow> row list" where
  "close c = committed c"

section \<open>The ingestion merge\<close>

text \<open>\<open>chunked\<close>, always called with the size 500.\<close>

function chunked :: "'a list \<Rightarrow> nat \<Rightarrow> 'a list list" where
  "chunked sequence sz =
     (if sequence = [] \<or> sz = 0 then []
      else take sz sequence # chunked (drop sz sequence) sz)"
  by pat_completeness auto
termination
  by (relation "measure (\<lambda>(sequence, sz). length sequence)") auto

declare chunked.simps [simp del]

text \<open>
  The first loop of \<open>insert_records\<close>: each record is repaired, its detail normalised, and
  it is either counted as ignored or kept, with its key, in \<open>prepared\<close>. The list \<open>keys\<close>
  of the source is the list of the keys in \<open>prepared\<close>.
\<close>

type_synonym prepared = "candidate \<times> ustr \<times> ustr"

definition key_of :: "prepared \<Rightarrow> ustr" where
  "key_of p = fst (snd p)"

text \<open>\<open>enumerate(xs)\<close>.\<close>

definition enumerate_list :: "'a list \<Rightarrow> (nat \<times> 'a) list" where
  "enumerate_list xs = zip [0 ..< length xs] xs"

fun fix_columns :: "candidate \<Rightarrow> ustr list \<Rightarrow> error + (ustr \<times> ustr) list" where
  "fix_columns record [] = Inr []"
| "fix_columns record (column # columns) =
     (case fix_text (Some (get_field record column)) of
        Inl err \<Rightarrow> Inl err
      | Inr v \<Rightarrow>
          (case fix_columns record columns of
             Inl err \<Rightarrow> Inl err
           | Inr kvs \<Rightarrow> Inr ((column, v) # kvs)))"

definition is_ignored :: "unicode_db \<Rightarrow> ustr \<Rightarrow> bool" where
  "is_ignored U detail_normalized \<longleftrightarrow>
     list_ex (\<lambda>prefix. startswith detail_normalized prefix) (IGNORED_DETAIL_PREFIXES U)"

fun prepare :: "unicode_db \<Rightarrow> candidate list \<Rightarrow> error + (prepared list \<times> nat)" where
  "prepare U [] = Inr ([], 0)"
| "prepare U (record # records) =
     (case fix_text (Some (get_field record (ustr_of ''RepDetalleRechazo''))) of
        Inl err \<Rightarrow> Inl err
      | Inr detail \<Rightarrow>
          (case fix_columns record COLUMNS of
             Inl err \<Rightarrow> Inl err
           | Inr kvs \<Rightarrow>
               let record' = (map_of kvs)(ustr_of ''RepDetalleRechazo'' \<mapsto> detail);
                   detail_normalized = normalize_detail U detail
               in (case prepare U records of
                     Inl err \<Rightarrow> Inl err
                   | Inr (prepared, ignored) \<Rightarrow>
                       if is_ignored U detail_normalized then Inr (prepared, ignored + 1)
                       else let key = build_key record'
                            in if key = [] then Inr (prepared, ignored)
                               else Inr ((record', key, detail_normalized) # prepared, ignored))))"

text \<open>The chunked lookup that fills the dictionary \<open>existing\<close> (key to stored sources).\<close>

fun lookup_existing ::
  "faults \<Rightarrow> conn \<Rightarrow> ustr list list \<Rightarrow> (ustr \<rightharpoonup> ustr list)
     \<Rightarrow> (error \<times> conn) + (conn \<times> (ustr \<rightharpoonup> ustr list))" where
  "lookup_existing F c [] existing = Inr (c, existing)"
| "lookup_existing F c (chunk # chunks) existing =
     (case select_rows F c chunk of
        Inl e \<Rightarrow> Inl e
      | Inr (c', rows) \<Rightarrow>
          lookup_existing F c' chunks
            (fold (\<lambda>row ex. ex(row_id row \<mapsto> row_sources row)) rows existing))"

definition new_row :: "ustr \<Rightarrow> int \<Rightarrow> nat \<Rightarrow> prepared \<Rightarrow> row" where
  "new_row source now index p =
     (case p of (record, key, detail_normalized) \<Rightarrow>
        \<lparr>row_id = key,
         row_EmpRUC = get_field record (ustr_of ''EmpRUC''),
         row_EmpRazonSocial = get_field record (ustr_of ''EmpRazonSocial''),
         row_EmpNom = get_field record (ustr_of ''EmpNom''),
         row_RepFecha = get_field record (ustr_of ''RepFecha''),
         row_RepFechaDate = extract_date (record (ustr_of ''RepFecha'')),
         row_RepLiqEstadoConsulta = get_field record (ustr_of ''RepLiqEstadoConsulta''),
         row_RepDetalleRechazo = get_field record (ustr_of ''RepDetalleRechazo''),
         row_detail_normalized = detail_normalized,
         row_resolved = False,
         row_sources = [source],
         row_created_at = now + int index\<rparr>)"

text \<open>
  The second loop, over \<open>enumerate(prepared)\<close>, with the connection, the list \<open>inserts\<close> and
  the two counters as its state.
\<close>

fun merge_loop ::
  "faults \<Rightarrow> ustr \<Rightarrow> int \<Rightarrow> (ustr \<rightharpoonup> ustr list) \<Rightarrow> (nat \<times> prepared) list
     \<Rightarrow> conn \<times> row list \<times> nat \<times> nat \<Rightarrow> (error \<times> conn) + (conn \<times> row list \<times> nat \<times> nat)" where
  "merge_loop F source now existing [] st = Inr st"
| "merge_loop F source now existing ((index, p) # rest) (c, inserts, added, duplicates) =
     (case existing (key_of p) of
        Some sources \<Rightarrow>
          if source \<notin> set sources
          then (case update_sources F c (sources @ [source]) (key_of p) of
                  Inl e \<Rightarrow> Inl e
                | Inr c' \<Rightarrow>
                    merge_loop F source now existing rest (c', inserts, added, duplicates + 1))
          else merge_loop F source now existing rest (c, inserts, added, duplicates + 1)
      | None \<Rightarrow>
          merge_loop F source now existing rest
            (c, inserts @ [new_row source now index p], added + 1, duplicates))"

text \<open>The body of the \<open>try\<close> block; a failure carries the connection as it was then.\<close>

definition transaction ::
  "faults \<Rightarrow> ustr \<Rightarrow> int \<Rightarrow> prepared list \<Rightarrow> conn \<Rightarrow> (error \<times> conn) + (conn \<times> nat \<times> nat)" where
  "transaction F source now prepared c =
     (case lookup_existing F c (chunked (map key_of prepared) 500) Map.empty of
        Inl e \<Rightarrow> Inl e
      | Inr (c1, existing) \<Rightarrow>
          (case merge_loop F source now existing (enumerate_list prepared)
                  (c1, [], 0, 0) of
             Inl e \<Rightarrow> Inl e
           | Inr (c2, inserts, added, duplicates) \<Rightarrow>
               (case executemany_insert F c2 inserts of
                  Inl e \<Rightarrow> Inl e
                | Inr c3 \<Rightarrow>
                    (case commit F c3 of
                       Inl e \<Rightarrow> Inl e
                     | Inr c4 \<Rightarrow> Inr (c4, added, duplicates)))))"

text \<open>
  \<open>insert_records\<close> on the table \<open>db\<close>, with the clock reading \<open>now\<close> (milliseconds): the
  result or the exception, and the table in the file once the connection is closed.
\<close>

definition insert_records ::
  "unicode_db \<Rightarrow> faults \<Rightarrow> int \<Rightarrow> row list \<Rightarrow> candidate list \<Rightarrow> ustr
     \<Rightarrow> (error + nat \<times> nat \<times> nat) \<times> row list" where
  "insert_records U F now db records source =
     (if records = [] then (Inr (0, 0, 0), db)
      else case prepare U records of
        Inl err \<Rightarrow> (Inl err, db)
      | Inr (prepared, ignored) \<Rightarrow>
          if prepared = [] then (Inr (0, 0, ignored), db)
          else (case transaction F source now prepared (get_connection db) of
                  Inl (err, c) \<Rightarrow> (Inl err, close c)
                | Inr (c, added, duplicates) \<Rightarrow> (Inr (added, duplicates, ignored), close c)))"

section \<open>The query interface\<close>

text \<open>
  A numeric request parameter, as \<open>api_rows\<close> reads it: absent (\<open>request.args.get\<close> gives
  \<open>None\<close>), text that \<open>int()\<close> reads as a number, or text on which \<open>int()\<close> raises
  \<open>ValueError\<close>.
\<close>

datatype int_arg = Absent | Int_arg int | Not_int

text \<open>
  SQLite compares \<open>TEXT\<close> values under the \<open>BINARY\<close> collation byte by byte on their UTF-8
  encoding, which is the lexicographic order of the code points.
\<close>

fun text_le :: "ustr \<Rightarrow> ustr \<Rightarrow> bool" where
  "text_le [] ys = True"
| "text_le (x # xs) [] = False"
| "text_le (x # xs) (y # ys) = (x < y \<or> (x = y \<and> text_le xs ys))"

text \<open>
  SQLite's \<open>LIKE\<close>: \<open>%\<close> (37) stands for any run of characters, \<open>_\<close> (95) for any one
  character, and ASCII letters match without regard to case.
\<close>

definition ascii_upper :: "nat \<Rightarrow> nat" where
  "ascii_upper c = (if 97 \<le> c \<and> c \<le> 122 then c - 32 else c)"

fun sql_like :: "ustr \<Rightarrow> ustr \<Rightarrow> bool" where
  "sql_like [] text = (text = [])"
| "sql_like (p # ps) [] = (p = 37 \<and> sql_like ps [])"
| "sql_like (p # ps) (c # cs) =
     (if p = 37 then sql_like ps (c # cs) \<or> sql_like (p # ps) cs
      else (p = 95 \<or> ascii_upper p = ascii_upper c) \<and> sql_like ps cs)"

text \<open>The \<open>WHERE\<close> clause that \<open>api_rows\<close> builds; a comparison with \<open>NULL\<close> selects nothing.\<close>

definition where_clause :: "unicode_db \<Rightarrow> ustr option \<Rightarrow> ustr option \<Rightarrow> ustr \<Rightarrow> row \<Rightarrow> bool" where
  "where_clause U from_date to_date detail r \<longleftrightarrow>
     (case from_date of
        None \<Rightarrow> True
      | Some f \<Rightarrow> f = [] \<or> (case row_RepFechaDate r of None \<Rightarrow> False | Some d \<Rightarrow> text_le f d))
     \<and> (case to_date of
        None \<Rightarrow> True
      | Some t \<Rightarrow> t = [] \<or> (case row_RepFechaDate r of None \<Rightarrow> False | Some d \<Rightarrow> text_le d t))
     \<and> (detail = [] \<or> sql_like ([37] @ normalize_detail U detail @ [37]) (row_detail_normalized r))"

text \<open>\<open>ORDER BY created_at, id\<close>.\<close>

definition row_le :: "row \<Rightarrow> row \<Rightarrow> bool" where
  "row_le r1 r2 \<longleftrightarrow>
     row_created_at r1 < row_created_at r2
     \<or> (row_created_at r1 = row_created_at r2 \<and> text_le (row_id r1) (row_id r2))"

fun insort_row :: "row \<Rightarrow> row list \<Rightarrow> row list" where
  "insort_row r [] = [r]"
| "insort_row r (x # xs) = (if row_le r x then r # x # xs else x # insort_row r xs)"

definition order_rows :: "row list \<Rightarrow> row list" where
  "order_rows rs = foldr insort_row rs []"

text \<open>The bounds query: the least and the greatest non-empty \<open>RepFechaDate\<close>.\<close>

definition text_min :: "ustr \<Rightarrow> ustr list \<Rightarrow> ustr" where
  "text_min d ds = fold (\<lambda>x m. if text_le x m then x else m) ds d"

definition text_max :: "ustr \<Rightarrow> ustr list \<Rightarrow> ustr" where
  "text_max d ds = fold (\<lambda>x m. if text_le m x then x else m) ds d"

definition date_bounds :: "row list \<Rightarrow> (ustr \<times> ustr) option" where
  "date_bounds db =
     (case filter (\<lambda>d. d \<noteq> []) (concat (map (\<lambda>r. case row_RepFechaDate r of None \<Rightarrow> [] | Some d \<Rightarrow> [d]) db)) of
        [] \<Rightarrow> None
      | d # ds \<Rightarrow> Some (text_min d ds, text_max d ds))"

record out_row =
  o_id :: ustr
  o_EmpRUC :: ustr
  o_EmpRazonSocial :: ustr
  o_EmpNom :: ustr
  o_RepFecha :: ustr
  o_RepLiqEstadoConsulta :: ustr
  o_RepDetalleRechazo :: ustr
  o_resolved :: bool
  o_sources :: "ustr list"
  o_rep_date :: "ustr option"

record payload =
  p_rows :: "out_row list"
  p_total :: int
  p_count_all :: int
  p_resolved_count :: int
  p_bounds :: "(ustr \<times> ustr) option"
  p_page :: int
  p_page_size :: int
  p_total_pages :: int

definition bind_err :: "error + 'a \<Rightarrow> ('a \<Rightarrow> error + 'b) \<Rightarrow> error + 'b" where
  "bind_err m f = (case m of Inl err \<Rightarrow> Inl err | Inr v \<Rightarrow> f v)"

fun fix_sources :: "ustr list \<Rightarrow> error + ustr list" where
  "fix_sources [] = Inr []"
| "fix_sources (source # sources) =
     bind_err (fix_text (Some source)) (\<lambda>v. bind_err (fix_sources sources) (\<lambda>vs. Inr (v # vs)))"

text \<open>One element of the \<open>"rows"\<close> list of the payload, its entries evaluated in order.\<close>

definition serialize_row :: "row \<Rightarrow> error + out_row" where
  "serialize_row r =
     bind_err (fix_text (Some (row_EmpRUC r))) (\<lambda>v1.
     bind_err (fix_text (Some (row_EmpRazonSocial r))) (\<lambda>v2.
     bind_err (fix_text (Some (row_EmpNom r))) (\<lambda>v3.
     bind_err (fix_text (Some (row_RepFecha r))) (\<lambda>v4.
     bind_err (fix_text (Some (row_RepLiqEstadoConsulta r))) (\<lambda>v5.
     bind_err (fix_text (Some (row_RepDetalleRechazo r))) (\<lambda>v6.
     bind_err (fix_sources (row_sources r)) (\<lambda>ss.
       Inr \<lparr>o_id = row_id r, o_EmpRUC = v1, o_EmpRazonSocial = v2, o_EmpNom = v3,
            o_RepFecha = v4, o_RepLiqEstadoConsulta = v5, o_RepDetalleRechazo = v6,
            o_resolved = row_resolved r, o_sources = ss,
            o_rep_date = row_RepFechaDate r\<rparr>)))))))"

fun serialize_rows :: "row list \<Rightarrow> error + out_row list" where
  "serialize_rows [] = Inr []"
| "serialize_rows (r # rs) =
     bind_err (serialize_row r) (\<lambda>v. bind_err (serialize_rows rs) (\<lambda>vs. Inr (v # vs)))"

text \<open>
  \<open>math.ceil(total / page_size)\<close> for a count and a page size of at most 200 is the integer
  ceiling of the quotient (the float quotient is exact enough for every count below
  \<open>2 ^ 45\<close>).
\<close>

definition ceil_div :: "int \<Rightarrow> int \<Rightarrow> int" where
  "ceil_div n page_size = (n + page_size - 1) div page_size"

definition api_rows ::
  "unicode_db \<Rightarrow> row list \<Rightarrow> ustr option \<Rightarrow> ustr option \<Rightarrow> ustr \<Rightarrow> int_arg \<Rightarrow> int_arg
     \<Rightarrow> error + payload" where
  "api_rows U db from_date to_date detail_arg page_param page_size_param =
     (let detail = strip detail_arg;
          selected = filter (where_clause U from_date to_date detail) db;
          page0 = max 1 (case page_param of Absent \<Rightarrow> 1 | Int_arg n \<Rightarrow> n | Not_int \<Rightarrow> 1);
          page_size = max 1 (min (case page_size_param of Absent \<Rightarrow> 20 | Int_arg n \<Rightarrow> n | Not_int \<Rightarrow> 20) 200);
          total_rows = int (length selected);
          total_pages = (if total_rows \<noteq> 0 then max 1 (ceil_div total_rows page_size) else 1);
          page = (if page0 > total_pages then total_pages else page0);
          offset = (page - 1) * page_size;
          rows = take (nat page_size) (drop (nat offset) (order_rows selected));
          count_all = int (length db);
          resolved_count = int (length (filter row_resolved db));
          bounds = date_bounds db
      in bind_err (serialize_rows rows) (\<lambda>out.
           Inr \<lparr>p_rows = out, p_total = total_rows, p_count_all = count_all,
                p_resolved_count = resolved_count, p_bounds = bounds, p_page = page,
                p_page_size = page_size, p_total_pages = total_pages\<rparr>))"


text \<open>
  The shape the specification asks of a report date, in its words: ten characters, digits
  in the year, month and day positions, dashes as the fifth and eighth character.
\<close>

definition spec_date_shape :: "ustr \<Rightarrow> bool" where
  "spec_date_shape c \<longleftrightarrow>
     length c = 10 \<and> list_all (\<lambda>i. 48 \<le> c ! i \<and> c ! i \<le> 57) [0, 1, 2, 3, 5, 6, 8, 9]
     \<and> c ! 4 = 45 \<and> c ! 7 = 45"

text \<open>
  The shape \<open>extract_date\<close> tests: ten characters, exactly two dashes, and four characters
  before the first dash.
\<close>

definition dash_shape :: "ustr \<Rightarrow> bool" where
  "dash_shape c \<longleftrightarrow>
     length c = 10 \<and> count_list c 45 = 2 \<and> length (takeWhile (\<lambda>x. x \<noteq> 45) c) = 4"

text \<open>What it means for a label to occur in a line, and the offset of its first occurrence.\<close>

definition occurs :: "ustr \<Rightarrow> ustr \<Rightarrow> bool" where
  "occurs sub s \<longleftrightarrow> (\<exists>j \<le> length s. startswith (drop j s) sub)"

definition first_offset :: "ustr \<Rightarrow> ustr \<Rightarrow> nat" where
  "first_offset s sub = (LEAST j. startswith (drop j s) sub)"

section \<open>What a merge call is to achieve\<close>

text \<open>The sources stored under a key.\<close>

definition sources_in :: "row list \<Rightarrow> ustr \<rightharpoonup> ustr list" where
  "sources_in db = map_of (map (\<lambda>r. (row_id r, row_sources r)) db)"

text \<open>
  The source merge on one stored row: when its key is among the keys of the batch and the
  label is not yet among its sources, the label is appended; nothing else changes.
\<close>

definition merge_source :: "ustr set \<Rightarrow> ustr \<Rightarrow> row \<Rightarrow> row" where
  "merge_source keys source r =
     (if row_id r \<in> keys \<and> source \<notin> set (row_sources r)
      then r\<lparr>row_sources := row_sources r @ [source]\<rparr> else r)"

text \<open>The same, read off the dictionary \<open>existing\<close> as the loop does.\<close>

definition touch :: "(ustr \<rightharpoonup> ustr list) \<Rightarrow> ustr \<Rightarrow> ustr set \<Rightarrow> row \<Rightarrow> row" where
  "touch existing source K r =
     (case existing (row_id r) of
        Some s \<Rightarrow> if row_id r \<in> K \<and> source \<notin> set s then r\<lparr>row_sources := s @ [source]\<rparr> else r
      | None \<Rightarrow> r)"

definition is_new :: "(ustr \<rightharpoonup> ustr list) \<Rightarrow> nat \<times> prepared \<Rightarrow> bool" where
  "is_new existing ip \<longleftrightarrow> existing (key_of (snd ip)) = None"

text \<open>
  The table once every insert and every source merge of a call is applied: the stored rows
  with the source merged, followed by one new row for each prepared record whose key was
  not stored.
\<close>

definition applied :: "ustr \<Rightarrow> int \<Rightarrow> row list \<Rightarrow> prepared list \<Rightarrow> row list" where
  "applied source now db prepared =
     map (merge_source (set (map key_of prepared)) source) db
     @ map (\<lambda>ip. new_row source now (fst ip) (snd ip))
         (filter (\<lambda>ip. key_of (snd ip) \<notin> set (map row_id db)) (enumerate_list prepared))"

text \<open>
  A candidate record is ignorable when its repaired and normalised rejection detail starts
  with a normalised ignorable prefix.
\<close>

definition ignorable :: "unicode_db \<Rightarrow> candidate \<Rightarrow> bool" where
  "ignorable U r \<longleftrightarrow>
     (case fix_text (Some (get_field r (ustr_of ''RepDetalleRechazo''))) of
        Inl err \<Rightarrow> False
      | Inr detail \<Rightarrow> is_ignored U (normalize_detail U detail))"

section \<open>Example data\<close>

text \<open>
  Unicode tables cut down to what the examples below use: o acute, small and capital,
  decomposes into the letter and the combining acute accent (769); the combining
  diacritical marks are the code points 768 to 879; lower-casing acts on the ASCII capitals.
\<close>

definition example_tables :: unicode_db where
  "example_tables =
     \<lparr>nfd = (\<lambda>s. concat (map (\<lambda>c. if c = 243 then [111, 769] else if c = 211 then [79, 769] else [c]) s)),
      is_Mn = (\<lambda>c. 768 \<le> c \<and> c < 880),
      lower = map (\<lambda>c. if 65 \<le> c \<and> c \<le> 90 then c + 32 else c)\<rparr>"

definition candidate_of :: "ustr list \<Rightarrow> candidate" where
  "candidate_of vs = map_of (zip COLUMNS vs)"

definition example_record :: candidate where
  "example_record = candidate_of [ustr_of ''123'', ustr_of ''ACME SA'', ustr_of ''ACME'',
     ustr_of ''2023-05-01 extra'', ustr_of ''R'', ustr_of ''Bad'']"

definition example_ignorable :: candidate where
  "example_ignorable = candidate_of [ustr_of ''456'', ustr_of ''B SA'', ustr_of ''B'',
     ustr_of ''2023-05-02'', ustr_of ''R'',
     ustr_of ''EN LA FECHA DE RESUMEN DEL REPORTE LA CONDICI'' @ [211] @
      ustr_of ''N DE EMISOR ELECTR'' @ [211] @ ustr_of ''NICO NO ESTABA VIGENTE hoy'']"

definition example_row :: "ustr list \<Rightarrow> int \<Rightarrow> row" where
  "example_row srcs t =
     \<lparr>row_id = ustr_of ''123||ACME SA||ACME||2023-05-01 extra||R||Bad'',
      row_EmpRUC = ustr_of ''123'', row_EmpRazonSocial = ustr_of ''ACME SA'',
      row_EmpNom = ustr_of ''ACME'', row_RepFecha = ustr_of ''2023-05-01 extra'',
      row_RepFechaDate = Some (ustr_of ''2023-05-01''), row_RepLiqEstadoConsulta = ustr_of ''R'',
      row_RepDetalleRechazo = ustr_of ''Bad'', row_detail_normalized = ustr_of ''bad'',
      row_resolved = False, row_sources = srcs, row_created_at = t\<rparr>"

(*DEFS-END*)

section \<open>Properties of the text functions\<close>

lemma split_on_nonempty: "split_on sep xs \<noteq> []"
  by (induction xs) auto

lemma length_split_on: "length (split_on sep xs) = Suc (count_list xs sep)"
proof (induction xs)
  case Nil
  show ?case by simp
next
  case (Cons x xs)
  have "length (tl (split_on sep xs)) = count_list xs sep"
    using Cons.IH by simp
  then show ?case using Cons.IH by simp
qed

lemma hd_split_on: "hd (split_on sep xs) = takeWhile (\<lambda>x. x \<noteq> sep) xs"
  by (induction xs) auto

lemma three_parts:
  "(case ps of [year, month, day] \<Rightarrow> f year | _ \<Rightarrow> d) = (if length ps = 3 then f (hd ps) else d)"
  by (auto split: list.splits)

lemma strip_Nil: "strip [] = []"
  by (simp add: strip_def)

lemma extract_date_eq:
  "extract_date rep_fecha =
     (case rep_fecha of
        None \<Rightarrow> None
      | Some s \<Rightarrow> if dash_shape (take 10 (strip s)) then Some (take 10 (strip s)) else None)"
proof (cases rep_fecha)
  case None
  then show ?thesis by (simp add: extract_date_def)
next
  case (Some s)
  show ?thesis
  proof (cases "s = []")
    case True
    then show ?thesis using Some by (simp add: extract_date_def dash_shape_def strip_Nil)
  next
    case False
    then show ?thesis using Some
      by (simp add: extract_date_def dash_shape_def Let_def three_parts length_split_on hd_split_on)
  qed
qed

lemma length_ten:
  "length c = 10 \<Longrightarrow> \<exists>a0 a1 a2 a3 a4 a5 a6 a7 a8 a9. c = [a0, a1, a2, a3, a4, a5, a6, a7, a8, a9 :: nat]"
  by (auto simp: numeral_eq_Suc length_Suc_conv)

lemma spec_date_shape_dash_shape: "spec_date_shape c \<Longrightarrow> dash_shape c"
proof -
  assume a: "spec_date_shape c"
  then have "length c = 10" by (simp add: spec_date_shape_def)
  from length_ten[OF this] obtain a0 a1 a2 a3 a4 a5 a6 a7 a8 a9
    where c: "c = [a0, a1, a2, a3, a4, a5, a6, a7, a8, a9]" by blast
  show ?thesis using a unfolding c by (auto simp: spec_date_shape_def dash_shape_def)
qed

text \<open>
  The dates the specification describes are accepted: the difference between the two
  shapes is in what else \<open>extract_date\<close> accepts.
\<close>

lemma extract_date_spec_shape:
  "spec_date_shape (take 10 (strip s)) \<Longrightarrow> extract_date (Some s) = Some (take 10 (strip s))"
  by (simp add: extract_date_eq spec_date_shape_dash_shape)

lemma extract_date_examples:
  "extract_date (Some (ustr_of ''2023-05-01 extra'')) = Some (ustr_of ''2023-05-01'')"
  "extract_date (Some (ustr_of ''05/2023'')) = None"
  "extract_date (Some (ustr_of ''2023-5-1'')) = None"
  by (simp_all add: extract_date_def ustr_of_def strip_def is_space_def)

text \<open>
  C3, as the code has it: the derived \<open>rep_date\<close> is the first ten characters of the trimmed
  report-date-string exactly when those are ten characters holding two dashes, the first
  of them as fifth character; otherwise it is absent. Nothing tests for digits or for the
  place of the second dash.
\<close>

theorem extract_date_dash_shape:
  "extract_date rep_fecha =
     (case rep_fecha of
        None \<Rightarrow> None
      | Some s \<Rightarrow> if dash_shape (take 10 (strip s)) then Some (take 10 (strip s)) else None)"
  by (rule extract_date_eq)

theorem extract_date_dash_shape_witness:
  "dash_shape (take 10 (strip (ustr_of ''2023-05-01 extra'')))
   \<and> extract_date (Some (ustr_of ''2023-05-01 extra'')) = Some (ustr_of ''2023-05-01'')"
  using extract_date_dash_shape [of "Some (ustr_of ''2023-05-01 extra'')"]
  by (simp add: dash_shape_def ustr_of_def strip_def is_space_def)

text \<open>
  C3 as the specification states it fails: \<open>"abcd-ef-gh"\<close> has no digit at all and is
  returned as a date.
\<close>

theorem extract_date_accepts_non_digits:
  "extract_date (Some (ustr_of ''abcd-ef-gh'')) = Some (ustr_of ''abcd-ef-gh'')
   \<and> \<not> spec_date_shape (take 10 (strip (ustr_of ''abcd-ef-gh'')))"
  by (simp add: extract_date_def ustr_of_def strip_def is_space_def spec_date_shape_def)

text \<open>
  \<open>fix_text\<close> returns for absent and empty input, for text without the marker, and for
  text within Latin-1.
\<close>

lemma fix_text_empty: "fix_text None = Inr []" "fix_text (Some []) = Inr []"
  by (simp_all add: fix_text_def)

lemma fix_text_latin1:
  "\<forall>c \<in> set v. c < 256 \<Longrightarrow> \<exists>t. fix_text (Some v) = Inr t"
  by (simp add: fix_text_def encode_latin1_def split: option.splits)

lemma fix_text_no_marker: "63 \<notin> set v \<Longrightarrow> fix_text (Some v) = Inr v"
  by (simp add: fix_text_def)

text \<open>
  C4: \<open>fix_text\<close> is not total. On the two characters question mark, euro sign (code
  point 8364), \<open>encode("latin-1")\<close> raises \<open>UnicodeEncodeError\<close>, which the handler for
  \<open>UnicodeDecodeError\<close> does not catch; the same line makes \<open>parse_fixed_width_line\<close> raise.
\<close>

theorem fix_text_raises:
  "fix_text (Some [63, 8364]) = Inl UnicodeEncodeError
   \<and> parse_fixed_width_line [63, 8364] FALLBACK_POSITIONS = Inl UnicodeEncodeError"
  by (simp add: parse_fixed_width_line_def FALLBACK_POSITIONS_def fix_text_def
      encode_latin1_def strip_def is_space_def)

section \<open>Properties of column layout detection\<close>

lemma find_from_None:
  "find_from i sub s = None \<Longrightarrow> j \<le> length s \<Longrightarrow> \<not> startswith (drop j s) sub"
proof (induction s arbitrary: i j)
  case Nil
  then show ?case by (auto simp: startswith_def split: if_splits)
next
  case (Cons x xs)
  show ?case
  proof (cases j)
    case 0
    then show ?thesis using Cons.prems by (auto split: if_splits)
  next
    case (Suc k)
    then show ?thesis using Cons.prems Cons.IH[of "Suc i" k] by (auto split: if_splits)
  qed
qed

lemma find_from_Some:
  "find_from i sub s = Some k \<Longrightarrow>
     i \<le> k \<and> k - i \<le> length s \<and> startswith (drop (k - i) s) sub
     \<and> (\<forall>j < k - i. \<not> startswith (drop j s) sub)"
proof (induction s arbitrary: i)
  case Nil
  then show ?case by (auto simp: startswith_def split: if_splits)
next
  case (Cons x xs)
  show ?case
  proof (cases "startswith (x # xs) sub")
    case True
    then show ?thesis using Cons.prems by auto
  next
    case False
    then have f: "find_from (Suc i) sub xs = Some k" using Cons.prems by simp
    note ih = Cons.IH[OF f]
    then have ki: "k - i = Suc (k - Suc i)" by arith
    have "\<forall>j < k - i. \<not> startswith (drop j (x # xs)) sub"
    proof (intro allI impI)
      fix j assume j: "j < k - i"
      show "\<not> startswith (drop j (x # xs)) sub"
      proof (cases j)
        case 0
        then show ?thesis using False by simp
      next
        case (Suc m)
        then have "m < k - Suc i" using j ki by arith
        then show ?thesis using ih Suc by simp
      qed
    qed
    then show ?thesis using ih ki by auto
  qed
qed

lemma occurs_iff_find: "occurs sub s \<longleftrightarrow> find_from 0 sub s \<noteq> None"
proof
  assume "occurs sub s"
  then show "find_from 0 sub s \<noteq> None"
    unfolding occurs_def using find_from_None[of 0 sub s] by blast
next
  assume "find_from 0 sub s \<noteq> None"
  then obtain k where "find_from 0 sub s = Some k" by auto
  from find_from_Some[OF this] show "occurs sub s" unfolding occurs_def by auto
qed

lemma find_from_first_offset:
  assumes "find_from 0 sub s = Some k"
  shows "first_offset s sub = k"
proof -
  from find_from_Some[OF assms]
  have a: "startswith (drop k s) sub" and b: "\<forall>j < k. \<not> startswith (drop j s) sub" by auto
  show ?thesis unfolding first_offset_def
    by (rule Least_equality) (use a b in \<open>auto simp: not_less[symmetric]\<close>)
qed

lemma str_find_eq:
  "str_find s sub = (if occurs sub s then int (first_offset s sub) else - 1)"
proof (cases "find_from 0 sub s")
  case None
  then show ?thesis by (simp add: str_find_def occurs_iff_find)
next
  case (Some k)
  then show ?thesis
    using find_from_first_offset[OF Some] by (simp add: str_find_def occurs_iff_find)
qed

lemma detect_loop_eq:
  "detect_loop h labels positions =
     (if \<forall>label \<in> set labels. occurs label h then positions @ map (first_offset h) labels
      else FALLBACK_POSITIONS)"
  by (induction labels arbitrary: positions) (auto simp: str_find_eq Let_def)

text \<open>
  C5: when each of the six labels occurs in the header line, the layout is the list of the
  offsets of their first occurrences, in the order of the labels; when a label is missing,
  it is the whole fallback layout.
\<close>

theorem detect_column_positions_layout:
  "detect_column_positions header_line =
     (if \<forall>label \<in> set COLUMNS. occurs label header_line
      then map (first_offset header_line) COLUMNS
      else FALLBACK_POSITIONS)"
  by (simp add: detect_column_positions_def detect_loop_eq)

theorem detect_column_positions_layout_witness:
  "list_all (\<lambda>label. occurs label (ustr_of
        ''EmpRUC   EmpRazonSocial EmpNom RepFecha RepLiqEstadoConsulta RepDetalleRechazo''))
     COLUMNS
   \<and> map (first_offset (ustr_of
        ''EmpRUC   EmpRazonSocial EmpNom RepFecha RepLiqEstadoConsulta RepDetalleRechazo''))
       COLUMNS = [0, 9, 24, 31, 40, 61]
   \<and> \<not> list_all (\<lambda>label. occurs label (ustr_of ''EmpRUC   EmpRazonSocial'')) COLUMNS
   \<and> detect_column_positions (ustr_of ''EmpRUC   EmpRazonSocial'') = FALLBACK_POSITIONS"
proof -
  let ?h = "ustr_of ''EmpRUC   EmpRazonSocial EmpNom RepFecha RepLiqEstadoConsulta RepDetalleRechazo''"
  let ?g = "ustr_of ''EmpRUC   EmpRazonSocial''"
  have all: "\<forall>label \<in> set COLUMNS. occurs label ?h"
    by (simp add: occurs_iff_find COLUMNS_def ustr_of_def startswith_def)
  have run: "detect_column_positions ?h = [0, 9, 24, 31, 40, 61]"
    by (simp add: detect_column_positions_def COLUMNS_def ustr_of_def str_find_def startswith_def)
  have missing: "\<not> (\<forall>label \<in> set COLUMNS. occurs label ?g)"
    by (simp add: occurs_iff_find COLUMNS_def ustr_of_def startswith_def)
  have first: "map (first_offset ?h) COLUMNS = [0, 9, 24, 31, 40, 61]"
    using detect_column_positions_layout [of ?h] all run by simp
  have fallback: "detect_column_positions ?g = FALLBACK_POSITIONS"
    using detect_column_positions_layout [of ?g] missing by presburger
  show ?thesis
    unfolding list_all_iff using all first missing fallback by blast
qed

section \<open>Storage operations\<close>

lemma storage_op_Inr:
  "storage_op F c = Inr c' \<Longrightarrow> committed c' = committed c \<and> working c' = working c"
  by (auto simp: storage_op_def split: if_splits)

lemma storage_op_Inl: "storage_op F c = Inl (e, c') \<Longrightarrow> c' = c"
  by (auto simp: storage_op_def split: if_splits)

lemma storage_op_no_faults: "storage_op no_faults c = Inr (c\<lparr>ops := Suc (ops c)\<rparr>)"
  by (simp add: storage_op_def no_faults_def)

lemma select_rows_Inr:
  "select_rows F c chunk = Inr (c', rows) \<Longrightarrow>
     committed c' = committed c \<and> working c' = working c
     \<and> rows = filter (\<lambda>r. row_id r \<in> set chunk) (working c)"
  by (auto simp: select_rows_def split: sum.splits dest: storage_op_Inr)

lemma select_rows_Inl: "select_rows F c chunk = Inl (e, c') \<Longrightarrow> committed c' = committed c"
  by (auto simp: select_rows_def split: sum.splits dest: storage_op_Inl)

lemma update_sources_Inr:
  "update_sources F c sources key = Inr c' \<Longrightarrow>
     committed c' = committed c
     \<and> working c' = map (\<lambda>r. if row_id r = key then r\<lparr>row_sources := sources\<rparr> else r) (working c)"
  by (auto simp: update_sources_def split: sum.splits dest: storage_op_Inr)

lemma update_sources_Inl: "update_sources F c sources key = Inl (e, c') \<Longrightarrow> committed c' = committed c"
  by (auto simp: update_sources_def split: sum.splits dest: storage_op_Inl)

lemma insert_row_Inr:
  "insert_row F c r = Inr c' \<Longrightarrow>
     committed c' = committed c \<and> working c' = working c @ [r]
     \<and> row_id r \<notin> set (map row_id (working c))"
  by (auto simp: insert_row_def split: sum.splits if_splits dest: storage_op_Inr)

lemma insert_row_Inl: "insert_row F c r = Inl (e, c') \<Longrightarrow> committed c' = committed c"
  by (auto simp: insert_row_def split: sum.splits if_splits dest: storage_op_Inl storage_op_Inr)

lemma executemany_insert_Inr:
  "executemany_insert F c rs = Inr c' \<Longrightarrow>
     committed c' = committed c \<and> working c' = working c @ rs
     \<and> distinct (map row_id rs) \<and> set (map row_id rs) \<inter> set (map row_id (working c)) = {}"
proof (induction rs arbitrary: c)
  case Nil
  then show ?case by simp
next
  case (Cons r rs)
  from Cons.prems obtain c1 where c1: "insert_row F c r = Inr c1"
    and rest: "executemany_insert F c1 rs = Inr c'"
    by (auto split: sum.splits)
  from insert_row_Inr[OF c1] Cons.IH[OF rest] show ?case by auto
qed

lemma executemany_insert_Inl:
  "executemany_insert F c rs = Inl (e, c') \<Longrightarrow> committed c' = committed c"
proof (induction rs arbitrary: c)
  case Nil
  then show ?case by simp
next
  case (Cons r rs)
  show ?case
  proof (cases "insert_row F c r")
    case (Inl a)
    then show ?thesis using Cons.prems insert_row_Inl[of F c r e c'] by auto
  next
    case (Inr c1)
    then have "executemany_insert F c1 rs = Inl (e, c')" using Cons.prems by simp
    from Cons.IH[OF this] insert_row_Inr[OF Inr] show ?thesis by simp
  qed
qed

lemma commit_Inr: "commit F c = Inr c' \<Longrightarrow> committed c' = working c \<and> working c' = working c"
  by (auto simp: commit_def split: sum.splits dest: storage_op_Inr)

lemma commit_Inl: "commit F c = Inl (e, c') \<Longrightarrow> committed c' = committed c"
  by (auto simp: commit_def split: sum.splits dest: storage_op_Inl)

lemma concat_chunked: "0 < n \<Longrightarrow> concat (chunked xs n) = xs"
proof (induction xs n rule: chunked.induct)
  case (1 sequence sz)
  show ?case
  proof (cases "sequence = []")
    case True
    then show ?thesis by (subst chunked.simps) simp
  next
    case False
    then have "concat (chunked (drop sz sequence) sz) = drop sz sequence"
      using 1 by simp
    then show ?thesis using False 1(2) by (subst chunked.simps) simp
  qed
qed

lemma fold_existing:
  "distinct (map row_id rows) \<Longrightarrow>
     fold (\<lambda>row ex. ex(row_id row \<mapsto> row_sources row)) rows ex0 = ex0 ++ sources_in rows"
proof (induction rows arbitrary: ex0)
  case Nil
  then show ?case by (simp add: sources_in_def)
next
  case (Cons r rs)
  let ?f = "\<lambda>row ex. ex(row_id row \<mapsto> row_sources row)"
  have nd: "row_id r \<notin> dom (sources_in rs)"
    using Cons.prems by (auto simp: sources_in_def dom_map_of_conv_image_fst image_image)
  have d: "distinct (map row_id rs)" using Cons.prems by simp
  have "fold ?f (r # rs) ex0 = fold ?f rs (ex0(row_id r \<mapsto> row_sources r))"
    by simp
  also have "\<dots> = ex0(row_id r \<mapsto> row_sources r) ++ sources_in rs"
    by (rule Cons.IH[OF d])
  also have "\<dots> = (ex0 ++ sources_in rs)(row_id r \<mapsto> row_sources r)"
    using nd by (simp add: map_add_upd_left)
  also have "\<dots> = ex0 ++ sources_in (r # rs)"
    by (simp add: sources_in_def)
  finally show ?case .
qed

lemma sources_in_filter:
  "sources_in (filter (\<lambda>r. row_id r \<in> S) db) k = (if k \<in> S then sources_in db k else None)"
  by (induction db) (auto simp: sources_in_def)

lemma sources_in_row:
  "distinct (map row_id db) \<Longrightarrow> r \<in> set db \<Longrightarrow> sources_in db (row_id r) = Some (row_sources r)"
  by (induction db) (auto simp: sources_in_def rev_image_eqI)

lemma sources_in_None: "sources_in db k = None \<longleftrightarrow> k \<notin> set (map row_id db)"
  by (simp add: sources_in_def map_of_eq_None_iff image_image)

lemma lookup_existing_Inr:
  "lookup_existing F c chunks ex0 = Inr (c', ex) \<Longrightarrow> distinct (map row_id (working c)) \<Longrightarrow>
     committed c' = committed c \<and> working c' = working c
     \<and> ex = ex0 ++ (\<lambda>k. if k \<in> set (concat chunks) then sources_in (working c) k else None)"
proof (induction chunks arbitrary: c ex0)
  case Nil
  then show ?case by (simp add: map_add_def)
next
  case (Cons chunk chunks)
  from Cons.prems(1) obtain c1 rows where s: "select_rows F c chunk = Inr (c1, rows)"
    and rest: "lookup_existing F c1 chunks
        (fold (\<lambda>row ex. ex(row_id row \<mapsto> row_sources row)) rows ex0) = Inr (c', ex)"
    by (auto split: sum.splits)
  from select_rows_Inr[OF s] have cm: "committed c1 = committed c"
    and w1: "working c1 = working c"
    and rows: "rows = filter (\<lambda>r. row_id r \<in> set chunk) (working c)" by simp_all
  have d1: "distinct (map row_id (working c1))" using w1 Cons.prems(2) by simp
  have dr: "distinct (map row_id rows)" using rows Cons.prems(2) by (simp add: distinct_map_filter)
  note ih = Cons.IH[OF rest d1]
  have "ex = (ex0 ++ sources_in rows)
      ++ (\<lambda>k. if k \<in> set (concat chunks) then sources_in (working c) k else None)"
    using ih fold_existing[OF dr] unfolding w1 by simp
  also have "\<dots> = ex0
      ++ (\<lambda>k. if k \<in> set (concat (chunk # chunks)) then sources_in (working c) k else None)"
    unfolding rows by (auto simp: map_add_def sources_in_filter fun_eq_iff split: option.splits)
  finally show ?case using ih cm w1 by simp
qed

lemma lookup_existing_Inl:
  "lookup_existing F c chunks ex0 = Inl (e, c') \<Longrightarrow> committed c' = committed c"
proof (induction chunks arbitrary: c ex0)
  case Nil
  then show ?case by simp
next
  case (Cons chunk chunks)
  show ?case
  proof (cases "select_rows F c chunk")
    case (Inl a)
    then show ?thesis using Cons.prems select_rows_Inl[of F c chunk e c'] by auto
  next
    case (Inr b)
    obtain c1 rows where b: "b = (c1, rows)" by (cases b)
    then have "lookup_existing F c1 chunks
        (fold (\<lambda>row ex. ex(row_id row \<mapsto> row_sources row)) rows ex0) = Inl (e, c')"
      using Cons.prems Inr by simp
    from Cons.IH[OF this] select_rows_Inr[OF Inr[unfolded b]] show ?thesis by simp
  qed
qed

section \<open>The merge loop and the transaction\<close>

lemma touch_empty: "touch existing source {} r = r"
  by (simp add: touch_def split: option.splits)

lemma touch_update:
  "existing key = Some s \<Longrightarrow> source \<notin> set s \<Longrightarrow>
     touch existing source K (if row_id r = key then r\<lparr>row_sources := s @ [source]\<rparr> else r)
       = touch existing source (insert key K) r"
  by (auto simp: touch_def split: option.splits)

lemma touch_skip_None:
  "existing key = None \<Longrightarrow> touch existing source (insert key K) r = touch existing source K r"
  by (auto simp: touch_def split: option.splits)

lemma touch_skip_present:
  "existing key = Some s \<Longrightarrow> source \<in> set s \<Longrightarrow>
     touch existing source (insert key K) r = touch existing source K r"
  by (auto simp: touch_def split: option.splits)

lemma merge_loop_Inr:
  "merge_loop F source now existing ips (c, ins, a, d) = Inr (c', ins', a', d') \<Longrightarrow>
     committed c' = committed c
     \<and> working c' = map (touch existing source (set (map (\<lambda>ip. key_of (snd ip)) ips))) (working c)
     \<and> ins' = ins @ map (\<lambda>ip. new_row source now (fst ip) (snd ip)) (filter (is_new existing) ips)
     \<and> a' = a + length (filter (is_new existing) ips)
     \<and> d' = d + length (filter (\<lambda>ip. \<not> is_new existing ip) ips)"
proof (induction ips arbitrary: c ins a d)
  case Nil
  then show ?case by (simp add: touch_empty)
next
  case (Cons ip ips)
  obtain i p where ip: "ip = (i, p)" by (cases ip)
  let ?K = "set (map (\<lambda>ip. key_of (snd ip)) ips)"
  show ?case
  proof (cases "existing (key_of p)")
    case None
    then have run: "merge_loop F source now existing ips
        (c, ins @ [new_row source now i p], a + 1, d) = Inr (c', ins', a', d')"
      using Cons.prems ip by simp
    have new: "is_new existing ip" using None ip by (simp add: is_new_def)
    have "map (touch existing source (insert (key_of p) ?K)) (working c)
        = map (touch existing source ?K) (working c)"
      using None by (simp add: touch_skip_None)
    then show ?thesis using Cons.IH[OF run] new ip by simp
  next
    case (Some s)
    have old: "\<not> is_new existing ip" using Some ip by (simp add: is_new_def)
    show ?thesis
    proof (cases "source \<in> set s")
      case True
      then have run: "merge_loop F source now existing ips (c, ins, a, d + 1) = Inr (c', ins', a', d')"
        using Cons.prems ip Some by simp
      have "map (touch existing source (insert (key_of p) ?K)) (working c)
          = map (touch existing source ?K) (working c)"
        using Some True by (simp add: touch_skip_present)
      then show ?thesis using Cons.IH[OF run] old ip by simp
    next
      case False
      then obtain c1 where u: "update_sources F c (s @ [source]) (key_of p) = Inr c1"
        and run: "merge_loop F source now existing ips (c1, ins, a, d + 1) = Inr (c', ins', a', d')"
        using Cons.prems ip Some by (auto split: sum.splits)
      from update_sources_Inr[OF u] have cm: "committed c1 = committed c"
        and w1: "working c1 = map (\<lambda>r. if row_id r = key_of p then r\<lparr>row_sources := s @ [source]\<rparr> else r) (working c)"
        by simp_all
      have "map (touch existing source ?K) (working c1)
          = map (touch existing source (insert (key_of p) ?K)) (working c)"
        unfolding w1 using touch_update[of existing "key_of p" s source ?K] Some False by simp
      then show ?thesis using Cons.IH[OF run] old ip cm by simp
    qed
  qed
qed

lemma merge_loop_Inl:
  "merge_loop F source now existing ips (c, ins, a, d) = Inl (e, c') \<Longrightarrow>
     committed c' = committed c"
proof (induction ips arbitrary: c ins a d)
  case Nil
  then show ?case by simp
next
  case (Cons ip ips)
  obtain i p where ip: "ip = (i, p)" by (cases ip)
  show ?case
  proof (cases "existing (key_of p)")
    case None
    then have "merge_loop F source now existing ips
        (c, ins @ [new_row source now i p], a + 1, d) = Inl (e, c')"
      using Cons.prems ip by simp
    from Cons.IH[OF this] show ?thesis .
  next
    case (Some s)
    show ?thesis
    proof (cases "source \<in> set s")
      case True
      then have "merge_loop F source now existing ips (c, ins, a, d + 1) = Inl (e, c')"
        using Cons.prems ip Some by simp
      from Cons.IH[OF this] show ?thesis .
    next
      case False
      show ?thesis
      proof (cases "update_sources F c (s @ [source]) (key_of p)")
        case (Inl x)
        then show ?thesis
          using Cons.prems ip Some False update_sources_Inl[of F c "s @ [source]" "key_of p" e c']
          by auto
      next
        case (Inr c1)
        then have "merge_loop F source now existing ips (c1, ins, a, d + 1) = Inl (e, c')"
          using Cons.prems ip Some False by simp
        from Cons.IH[OF this] update_sources_Inr[OF Inr] show ?thesis by simp
      qed
    qed
  qed
qed

lemma keys_enumerate: "map (\<lambda>ip. key_of (snd ip)) (enumerate_list ps) = map key_of ps"
proof -
  have "map snd (enumerate_list ps) = ps"
    by (simp add: enumerate_list_def map_snd_zip)
  then have "map key_of (map snd (enumerate_list ps)) = map key_of ps" by simp
  then show ?thesis by (simp add: comp_def)
qed

lemma touch_merge_source:
  assumes d: "distinct (map row_id db)" and r: "r \<in> set db"
    and ex: "existing = (\<lambda>k. if k \<in> K then sources_in db k else None)"
  shows "touch existing source K r = merge_source K source r"
  using sources_in_row[OF d r] by (simp add: touch_def merge_source_def ex)

lemma transaction_stages:
  assumes "transaction F source now prepared c = Inr (c', added, duplicates)"
  shows "\<exists>c1 existing c2 inserts c3.
      lookup_existing F c (chunked (map key_of prepared) 500) Map.empty = Inr (c1, existing)
      \<and> merge_loop F source now existing (enumerate_list prepared) (c1, [], 0, 0)
           = Inr (c2, inserts, added, duplicates)
      \<and> executemany_insert F c2 inserts = Inr c3
      \<and> commit F c3 = Inr c'"
proof (cases "lookup_existing F c (chunked (map key_of prepared) 500) Map.empty")
  case (Inl x)
  then show ?thesis using assms by (simp add: transaction_def)
next
  case (Inr y)
  obtain c1 existing where y: "y = (c1, existing)" by (cases y)
  note l = Inr[unfolded y]
  show ?thesis
  proof (cases "merge_loop F source now existing (enumerate_list prepared) (c1, [], 0, 0)")
    case (Inl x)
    then show ?thesis using assms l by (simp add: transaction_def)
  next
    case (Inr z)
    obtain c2 inserts a d where z: "z = (c2, inserts, a, d)" by (cases z)
    note m = Inr[unfolded z]
    show ?thesis
    proof (cases "executemany_insert F c2 inserts")
      case (Inl x)
      then show ?thesis using assms l m by (simp add: transaction_def)
    next
      case (Inr c3)
      show ?thesis
      proof (cases "commit F c3")
        case (Inl x)
        then show ?thesis using assms l m Inr by (simp add: transaction_def)
      next
        case (Inr c4)
        then show ?thesis using assms l m \<open>executemany_insert F c2 inserts = Inr c3\<close>
          by (simp add: transaction_def)
      qed
    qed
  qed
qed

lemma length_filter_enumerate:
  "length (filter (\<lambda>ip. P (key_of (snd ip))) (enumerate_list prepared))
     = length (filter (\<lambda>p. P (key_of p)) prepared)"
proof -
  have "length (filter (\<lambda>ip. P (key_of (snd ip))) (enumerate_list prepared))
      = length (filter P (map (\<lambda>ip. key_of (snd ip)) (enumerate_list prepared)))"
    by (simp add: filter_map comp_def)
  also have "\<dots> = length (filter P (map key_of prepared))"
    by (simp only: keys_enumerate)
  also have "\<dots> = length (filter (\<lambda>p. P (key_of p)) prepared)"
    by (simp add: filter_map comp_def)
  finally show ?thesis .
qed

lemma transaction_Inr:
  assumes run: "transaction F source now prepared c = Inr (c', added, duplicates)"
    and d: "distinct (map row_id (working c))"
  shows "committed c' = applied source now (working c) prepared
     \<and> added = length (filter (\<lambda>p. key_of p \<notin> set (map row_id (working c))) prepared)
     \<and> duplicates = length (filter (\<lambda>p. key_of p \<in> set (map row_id (working c))) prepared)
     \<and> distinct (map row_id (committed c'))"
proof -
  let ?keys = "map key_of prepared"
  let ?ids = "set (map row_id (working c))"
  let ?eps = "enumerate_list prepared"
  from transaction_stages[OF run] obtain c1 existing c2 inserts c3
    where l: "lookup_existing F c (chunked ?keys 500) Map.empty = Inr (c1, existing)"
      and m: "merge_loop F source now existing ?eps (c1, [], 0, 0)
                = Inr (c2, inserts, added, duplicates)"
      and x: "executemany_insert F c2 inserts = Inr c3"
      and k: "commit F c3 = Inr c'"
    by blast
  have cc: "concat (chunked ?keys 500) = ?keys" by (rule concat_chunked) simp
  from lookup_existing_Inr[OF l d]
  have w1: "working c1 = working c"
    and ex0: "existing = Map.empty ++ (\<lambda>k. if k \<in> set (concat (chunked ?keys 500)) then sources_in (working c) k else None)"
    by simp_all
  have ex: "existing = (\<lambda>k. if k \<in> set ?keys then sources_in (working c) k else None)"
    unfolding ex0 cc by simp
  have new_iff: "is_new existing ip \<longleftrightarrow> key_of (snd ip) \<notin> ?ids"
    if "ip \<in> set ?eps" for ip
  proof -
    have "key_of (snd ip) \<in> set (map (\<lambda>ip. key_of (snd ip)) ?eps)"
      using that by simp
    then have "key_of (snd ip) \<in> set ?keys" by (simp only: keys_enumerate)
    then show ?thesis by (simp add: is_new_def ex sources_in_None)
  qed
  have filt: "filter (is_new existing) ?eps = filter (\<lambda>ip. key_of (snd ip) \<notin> ?ids) ?eps"
    by (rule filter_cong[OF refl]) (rule new_iff)
  have filt': "filter (\<lambda>ip. \<not> is_new existing ip) ?eps
      = filter (\<lambda>ip. key_of (snd ip) \<in> ?ids) ?eps"
    by (rule filter_cong[OF refl]) (simp add: new_iff)
  note ml = merge_loop_Inr[OF m]
  have w2: "working c2 = map (touch existing source (set ?keys)) (working c)"
    using ml by (simp only: keys_enumerate w1)
  have ins: "inserts = map (\<lambda>ip. new_row source now (fst ip) (snd ip))
         (filter (\<lambda>ip. key_of (snd ip) \<notin> ?ids) ?eps)"
    using ml by (simp only: filt append_Nil)
  have a: "added = length (filter (\<lambda>ip. key_of (snd ip) \<notin> ?ids) ?eps)"
    using ml by (simp only: filt add_0)
  have du: "duplicates = length (filter (\<lambda>ip. key_of (snd ip) \<in> ?ids) ?eps)"
    using ml by (simp only: filt' add_0)
  have w2': "working c2 = map (merge_source (set ?keys) source) (working c)"
    unfolding w2 by (rule map_cong[OF refl]) (rule touch_merge_source[OF d _ ex])
  from executemany_insert_Inr[OF x] have w3: "working c3 = working c2 @ inserts"
    and di: "distinct (map row_id inserts)"
    and dj: "set (map row_id inserts) \<inter> set (map row_id (working c2)) = {}" by simp_all
  from commit_Inr[OF k] have cm: "committed c' = working c3" by simp
  have ids2: "map row_id (working c2) = map row_id (working c)"
    unfolding w2' by (simp add: merge_source_def)
  have dist: "distinct (map row_id (committed c'))"
    unfolding cm w3 using d di dj ids2 by (simp add: Int_commute)
  have app: "committed c' = applied source now (working c) prepared"
    unfolding cm w3 w2' ins applied_def by (rule refl)
  have a': "added = length (filter (\<lambda>p. key_of p \<notin> ?ids) prepared)"
    unfolding a by (rule length_filter_enumerate[of "\<lambda>k. k \<notin> ?ids"])
  have du': "duplicates = length (filter (\<lambda>p. key_of p \<in> ?ids) prepared)"
    unfolding du by (rule length_filter_enumerate[of "\<lambda>k. k \<in> ?ids"])
  show ?thesis using app a' du' dist by blast
qed

lemma lookup_existing_committed:
  "lookup_existing F c chunks ex0 = Inr (c', ex) \<Longrightarrow> committed c' = committed c"
proof (induction chunks arbitrary: c ex0)
  case Nil
  then show ?case by simp
next
  case (Cons chunk chunks)
  from Cons.prems(1) obtain c1 rows where s: "select_rows F c chunk = Inr (c1, rows)"
    and rest: "lookup_existing F c1 chunks
        (fold (\<lambda>row ex. ex(row_id row \<mapsto> row_sources row)) rows ex0) = Inr (c', ex)"
    by (auto split: sum.splits)
  from Cons.IH[OF rest] select_rows_Inr[OF s] show ?case by simp
qed

lemma transaction_Inl:
  assumes "transaction F source now prepared c = Inl (e, c')"
  shows "committed c' = committed c"
proof (cases "lookup_existing F c (chunked (map key_of prepared) 500) Map.empty")
  case (Inl x)
  then show ?thesis using assms lookup_existing_Inl[of F c _ Map.empty e c']
    by (simp add: transaction_def)
next
  case (Inr y)
  obtain c1 existing where y: "y = (c1, existing)" by (cases y)
  note l = Inr[unfolded y]
  have c1: "committed c1 = committed c" by (rule lookup_existing_committed[OF l])
  show ?thesis
  proof (cases "merge_loop F source now existing (enumerate_list prepared) (c1, [], 0, 0)")
    case (Inl x)
    then show ?thesis using assms l c1 merge_loop_Inl[of F source now existing _ c1 "[]" 0 0 e c']
      by (simp add: transaction_def)
  next
    case (Inr z)
    obtain c2 inserts added duplicates where z: "z = (c2, inserts, added, duplicates)"
      by (cases z)
    note m = Inr[unfolded z]
    have c2: "committed c2 = committed c" using merge_loop_Inr[OF m] c1 by simp
    show ?thesis
    proof (cases "executemany_insert F c2 inserts")
      case (Inl x)
      then show ?thesis using assms l m c2 executemany_insert_Inl[of F c2 inserts e c']
        by (simp add: transaction_def)
    next
      case (Inr c3)
      have c3: "committed c3 = committed c" using executemany_insert_Inr[OF Inr] c2 by simp
      have "commit F c3 = Inl (e, c')"
        using assms l m Inr by (simp add: transaction_def split: sum.splits)
      from commit_Inl[OF this] c3 show ?thesis by simp
    qed
  qed
qed

lemma merge_source_no_keys: "merge_source {} source r = r"
  by (simp add: merge_source_def)

lemma applied_Nil: "applied source now db [] = db"
proof -
  have "merge_source {} source = (\<lambda>r. r)"
    by (rule ext) (simp add: merge_source_def)
  then show ?thesis by (simp add: applied_def enumerate_list_def)
qed

lemma insert_records_Inl:
  assumes "insert_records U F now db records source = (Inl e, db')"
  shows "db' = db"
proof (cases "records = []")
  case True
  then show ?thesis using assms by (simp add: insert_records_def)
next
  case False
  show ?thesis
  proof (cases "prepare U records")
    case (Inl x)
    then show ?thesis using assms False by (simp add: insert_records_def)
  next
    case (Inr y)
    obtain prepared ignored where y: "y = (prepared, ignored)" by (cases y)
    note p = Inr[unfolded y]
    show ?thesis
    proof (cases "prepared = []")
      case True
      then show ?thesis using assms False p by (simp add: insert_records_def)
    next
      case ne: False
      show ?thesis
      proof (cases "transaction F source now prepared (get_connection db)")
        case (Inl x)
        obtain e' c' where x: "x = (e', c')" by (cases x)
        from transaction_Inl[OF Inl[unfolded x]] have "committed c' = db"
          by (simp add: get_connection_def)
        then show ?thesis using assms False p ne Inl x
          by (simp add: insert_records_def close_def)
      next
        case (Inr z)
        then show ?thesis using assms False p ne
          by (simp add: insert_records_def split: prod.splits)
      qed
    qed
  qed
qed

lemma insert_records_Inr:
  assumes run: "insert_records U F now db records source = (Inr (added, duplicates, ignored), db')"
    and d: "distinct (map row_id db)"
  shows "\<exists>prepared. prepare U records = Inr (prepared, ignored)
     \<and> db' = applied source now db prepared
     \<and> added = length (filter (\<lambda>p. key_of p \<notin> set (map row_id db)) prepared)
     \<and> duplicates = length (filter (\<lambda>p. key_of p \<in> set (map row_id db)) prepared)
     \<and> distinct (map row_id db')"
proof (cases "records = []")
  case True
  then have "prepare U records = Inr ([], ignored) \<and> db' = db \<and> added = 0 \<and> duplicates = 0"
    using run by (simp add: insert_records_def)
  then show ?thesis using d by (simp add: applied_Nil)
next
  case False
  show ?thesis
  proof (cases "prepare U records")
    case (Inl x)
    then show ?thesis using run False by (simp add: insert_records_def)
  next
    case (Inr y)
    obtain prepared ig where y: "y = (prepared, ig)" by (cases y)
    note p = Inr[unfolded y]
    show ?thesis
    proof (cases "prepared = []")
      case True
      then have "ig = ignored \<and> db' = db \<and> added = 0 \<and> duplicates = 0"
        using run False p by (simp add: insert_records_def)
      then show ?thesis using d p True by (simp add: applied_Nil)
    next
      case ne: False
      show ?thesis
      proof (cases "transaction F source now prepared (get_connection db)")
        case (Inl x)
        then show ?thesis using run False p ne
          by (simp add: insert_records_def split: prod.splits)
      next
        case (Inr z)
        obtain c' a du where z: "z = (c', a, du)" by (cases z)
        note t = Inr[unfolded z]
        have w: "working (get_connection db) = db" by (simp add: get_connection_def)
        have res: "a = added \<and> du = duplicates \<and> ig = ignored \<and> db' = committed c'"
          using run False p ne t by (simp add: insert_records_def close_def)
        have d': "distinct (map row_id (working (get_connection db)))" using d w by simp
        note tr = transaction_Inr[OF t d', unfolded w]
        have 1: "db' = applied source now db prepared" using res tr by simp
        have 2: "added = length (filter (\<lambda>p. key_of p \<notin> set (map row_id db)) prepared)"
          using res tr by simp
        have 3: "duplicates = length (filter (\<lambda>p. key_of p \<in> set (map row_id db)) prepared)"
          using res tr by simp
        have r4: "db' = committed c'" using res by blast
        have t4: "distinct (map row_id (committed c'))" using tr by blast
        have 4: "distinct (map row_id db')" unfolding r4 by (rule t4)
        have 5: "prepare U records = Inr (prepared, ignored)" using res p by simp
        show ?thesis using 1 2 3 4 5 by blast
      qed
    qed
  qed
qed

section \<open>The preparation loop and the counters\<close>

lemma build_key_parts:
  "build_key r =
     strip (get_field r (ustr_of ''EmpRUC'')) @ ustr_of ''||''
     @ strip (get_field r (ustr_of ''EmpRazonSocial'')) @ ustr_of ''||''
     @ strip (get_field r (ustr_of ''EmpNom'')) @ ustr_of ''||''
     @ strip (get_field r (ustr_of ''RepFecha'')) @ ustr_of ''||''
     @ strip (get_field r (ustr_of ''RepLiqEstadoConsulta'')) @ ustr_of ''||''
     @ strip (get_field r (ustr_of ''RepDetalleRechazo''))"
  by (simp add: build_key_def COLUMNS_def)

lemma build_key_nonempty: "build_key r \<noteq> []"
  by (simp add: build_key_parts ustr_of_def)

lemma prepare_Inr:
  "prepare U records = Inr (ps, ig) \<Longrightarrow>
     ig = length (filter (ignorable U) records)
     \<and> length ps = length (filter (\<lambda>r. \<not> ignorable U r) records)
     \<and> (\<forall>p \<in> set ps. \<not> is_ignored U (snd (snd p)))"
proof (induction records arbitrary: ps ig)
  case Nil
  then show ?case by simp
next
  case (Cons r rs)
  from Cons.prems obtain detail kvs ps' ig'
    where f: "fix_text (Some (get_field r (ustr_of ''RepDetalleRechazo''))) = Inr detail"
      and k: "fix_columns r COLUMNS = Inr kvs"
      and rest: "prepare U rs = Inr (ps', ig')"
    by (auto simp: Let_def split: sum.splits prod.splits if_splits)
  note ih = Cons.IH[OF rest]
  show ?case
  proof (cases "is_ignored U (normalize_detail U detail)")
    case True
    then have "ps = ps' \<and> ig = ig' + 1"
      using Cons.prems f k rest by (simp add: Let_def)
    moreover have "ignorable U r" using True f by (simp add: ignorable_def)
    ultimately show ?thesis using ih by simp
  next
    case False
    then have "ps = ((map_of kvs)(ustr_of ''RepDetalleRechazo'' \<mapsto> detail),
          build_key ((map_of kvs)(ustr_of ''RepDetalleRechazo'' \<mapsto> detail)),
          normalize_detail U detail) # ps' \<and> ig = ig'"
      using Cons.prems f k rest by (simp add: Let_def build_key_nonempty)
    moreover have "\<not> ignorable U r" using False f by (simp add: ignorable_def)
    ultimately show ?thesis using ih False by simp
  qed
qed

lemma lookup_existing_working:
  "lookup_existing F c chunks ex0 = Inr (c', ex) \<Longrightarrow> working c' = working c"
proof (induction chunks arbitrary: c ex0)
  case Nil
  then show ?case by simp
next
  case (Cons chunk chunks)
  from Cons.prems(1) obtain c1 rows where s: "select_rows F c chunk = Inr (c1, rows)"
    and rest: "lookup_existing F c1 chunks
        (fold (\<lambda>row ex. ex(row_id row \<mapsto> row_sources row)) rows ex0) = Inr (c', ex)"
    by (auto split: sum.splits)
  from Cons.IH[OF rest] select_rows_Inr[OF s] show ?case by simp
qed

lemma transaction_Inr_raw:
  assumes run: "transaction F source now prepared c = Inr (c', added, duplicates)"
  shows "\<exists>existing.
     committed c' = map (touch existing source (set (map key_of prepared))) (working c)
        @ map (\<lambda>ip. new_row source now (fst ip) (snd ip))
            (filter (is_new existing) (enumerate_list prepared))
     \<and> added = length (filter (is_new existing) (enumerate_list prepared))
     \<and> duplicates = length (filter (\<lambda>ip. \<not> is_new existing ip) (enumerate_list prepared))"
proof -
  from transaction_stages[OF run] obtain c1 existing c2 inserts c3
    where l: "lookup_existing F c (chunked (map key_of prepared) 500) Map.empty = Inr (c1, existing)"
      and m: "merge_loop F source now existing (enumerate_list prepared) (c1, [], 0, 0)
                = Inr (c2, inserts, added, duplicates)"
      and x: "executemany_insert F c2 inserts = Inr c3"
      and k: "commit F c3 = Inr c'"
    by blast
  have w1: "working c1 = working c" by (rule lookup_existing_working[OF l])
  note ml = merge_loop_Inr[OF m]
  have w2: "working c2 = map (touch existing source (set (map key_of prepared))) (working c)"
    using ml by (simp only: keys_enumerate w1)
  have ins: "inserts = map (\<lambda>ip. new_row source now (fst ip) (snd ip))
         (filter (is_new existing) (enumerate_list prepared))"
    using ml by (simp only: append_Nil)
  have a: "added = length (filter (is_new existing) (enumerate_list prepared))"
    using ml by (simp only: add_0)
  have du: "duplicates = length (filter (\<lambda>ip. \<not> is_new existing ip) (enumerate_list prepared))"
    using ml by (simp only: add_0)
  from executemany_insert_Inr[OF x] have w3: "working c3 = working c2 @ inserts" by simp
  from commit_Inr[OF k] have cm: "committed c' = working c3" by simp
  have "committed c' = map (touch existing source (set (map key_of prepared))) (working c)
        @ map (\<lambda>ip. new_row source now (fst ip) (snd ip))
            (filter (is_new existing) (enumerate_list prepared))"
    unfolding cm w3 w2 ins by (rule refl)
  then show ?thesis using a du by blast
qed

lemma touch_no_existing: "touch Map.empty source K = (\<lambda>r. r)"
  by (rule ext) (simp add: touch_def)

lemma insert_records_Inr_raw:
  assumes run: "insert_records U F now db records source = (Inr (added, duplicates, ignored), db')"
  shows "\<exists>prepared existing. prepare U records = Inr (prepared, ignored)
     \<and> db' = map (touch existing source (set (map key_of prepared))) db
        @ map (\<lambda>ip. new_row source now (fst ip) (snd ip))
            (filter (is_new existing) (enumerate_list prepared))
     \<and> added = length (filter (is_new existing) (enumerate_list prepared))
     \<and> duplicates = length (filter (\<lambda>ip. \<not> is_new existing ip) (enumerate_list prepared))"
proof -
  have trivial: "prepare U records = Inr ([], ignored) \<Longrightarrow> db' = db \<Longrightarrow> added = 0
      \<Longrightarrow> duplicates = 0 \<Longrightarrow> ?thesis"
  proof -
    assume p: "prepare U records = Inr ([], ignored)" and e: "db' = db" "added = 0" "duplicates = 0"
    show ?thesis
      by (rule exI[of _ "[]"], rule exI[of _ Map.empty])
         (simp add: p e enumerate_list_def touch_no_existing)
  qed
  show ?thesis
  proof (cases "records = []")
    case True
    then have "prepare U records = Inr ([], ignored) \<and> db' = db \<and> added = 0 \<and> duplicates = 0"
      using run by (simp add: insert_records_def)
    then show ?thesis using trivial by blast
  next
    case False
    show ?thesis
    proof (cases "prepare U records")
      case (Inl x)
      then show ?thesis using run False by (simp add: insert_records_def)
    next
      case (Inr y)
      obtain prepared ig where y: "y = (prepared, ig)" by (cases y)
      note p = Inr[unfolded y]
      show ?thesis
      proof (cases "prepared = []")
        case True
        then have "ig = ignored \<and> db' = db \<and> added = 0 \<and> duplicates = 0"
          using run False p by (simp add: insert_records_def)
        then show ?thesis using trivial p True by blast
      next
        case ne: False
        show ?thesis
        proof (cases "transaction F source now prepared (get_connection db)")
          case (Inl x)
          then show ?thesis using run False p ne
            by (simp add: insert_records_def split: prod.splits)
        next
          case (Inr z)
          obtain c' a du where z: "z = (c', a, du)" by (cases z)
          note t = Inr[unfolded z]
          have w: "working (get_connection db) = db" by (simp add: get_connection_def)
          have res: "a = added" "du = duplicates" "ig = ignored" "db' = committed c'"
            using run False p ne t by (simp_all add: insert_records_def close_def)
          from transaction_Inr_raw[OF t, unfolded w] p show ?thesis
            unfolding res by blast
        qed
      qed
    qed
  qed
qed

lemma insert_records_counts:
  assumes run: "insert_records U F now db records source = (Inr (added, duplicates, ignored), db')"
  shows "added + duplicates + ignored = length records"
proof -
  from insert_records_Inr_raw[OF run] obtain prepared existing
    where p: "prepare U records = Inr (prepared, ignored)"
      and a: "added = length (filter (is_new existing) (enumerate_list prepared))"
      and d: "duplicates = length (filter (\<lambda>ip. \<not> is_new existing ip) (enumerate_list prepared))"
    by blast
  have "added + duplicates = length (enumerate_list prepared)"
    unfolding a d by (rule sum_length_filter_compl)
  also have "\<dots> = length prepared" by (simp add: enumerate_list_def)
  finally have "added + duplicates = length prepared" .
  moreover from prepare_Inr[OF p] have "ignored = length (filter (ignorable U) records)"
    and "length prepared = length (filter (\<lambda>r. \<not> ignorable U r) records)" by simp_all
  ultimately show ?thesis
    using sum_length_filter_compl[of "ignorable U" records] by simp
qed

section \<open>Calls without storage faults\<close>

lemma storage_op_ok: "storage_op no_faults c = Inr (c\<lparr>ops := Suc (ops c)\<rparr>)"
  by (simp add: storage_op_def no_faults_def)

lemma lookup_existing_no_faults: "\<exists>c' ex. lookup_existing no_faults c chunks ex0 = Inr (c', ex)"
  by (induction chunks arbitrary: c ex0) (simp_all add: select_rows_def storage_op_ok)

lemma merge_loop_no_faults:
  "\<exists>c' ins' a' d'. merge_loop no_faults source now existing ips (c, ins, a, d) = Inr (c', ins', a', d')"
proof (induction ips arbitrary: c ins a d)
  case Nil
  then show ?case by simp
next
  case (Cons ip ips)
  obtain i p where ip: "ip = (i, p)" by (cases ip)
  show ?case unfolding ip
    by (cases "existing (key_of p)") (simp_all add: update_sources_def storage_op_ok Cons.IH)
qed

lemma executemany_insert_no_faults:
  "distinct (map row_id rs) \<Longrightarrow> set (map row_id rs) \<inter> set (map row_id (working c)) = {}
     \<Longrightarrow> \<exists>c'. executemany_insert no_faults c rs = Inr c'"
proof (induction rs arbitrary: c)
  case Nil
  then show ?case by simp
next
  case (Cons r rs)
  let ?c1 = "c\<lparr>ops := Suc (ops c), working := working c @ [r]\<rparr>"
  have fresh: "row_id r \<notin> set (map row_id (working c))" using Cons.prems(2) by auto
  then have step: "insert_row no_faults c r = Inr ?c1"
    by (simp add: insert_row_def storage_op_ok)
  have "distinct (map row_id rs)" using Cons.prems(1) by simp
  moreover have "set (map row_id rs) \<inter> set (map row_id (working ?c1)) = {}"
    using Cons.prems by auto
  ultimately obtain c' where "executemany_insert no_faults ?c1 rs = Inr c'"
    using Cons.IH by blast
  then show ?case using step by simp
qed

lemma commit_no_faults: "\<exists>c'. commit no_faults c = Inr c'"
  by (simp add: commit_def storage_op_ok)

lemma row_id_new_row: "row_id (new_row source now i p) = key_of p"
  by (simp add: new_row_def key_of_def split: prod.splits)

lemma row_id_touch: "row_id (touch existing source K r) = row_id r"
  by (simp add: touch_def split: option.splits)

lemma row_id_merge_source: "row_id (merge_source K source r) = row_id r"
  by (simp add: merge_source_def)

text \<open>
  Without storage faults the transaction returns as soon as the keys that are not stored
  are pairwise different.
\<close>

lemma transaction_no_faults_returns:
  assumes d: "distinct (map row_id (working c))"
    and fresh: "distinct (map key_of (filter (\<lambda>p. key_of p \<notin> set (map row_id (working c))) prepared))"
  shows "\<exists>c' added duplicates. transaction no_faults source now prepared c = Inr (c', added, duplicates)"
proof -
  let ?keys = "map key_of prepared"
  let ?ids = "set (map row_id (working c))"
  let ?eps = "enumerate_list prepared"
  obtain c1 existing
    where l: "lookup_existing no_faults c (chunked ?keys 500) Map.empty = Inr (c1, existing)"
    using lookup_existing_no_faults by blast
  obtain c2 inserts a du
    where m: "merge_loop no_faults source now existing ?eps (c1, [], 0, 0) = Inr (c2, inserts, a, du)"
    using merge_loop_no_faults by blast
  have cc: "concat (chunked ?keys 500) = ?keys" by (rule concat_chunked) simp
  from lookup_existing_Inr[OF l d]
  have w1: "working c1 = working c"
    and ex0: "existing = Map.empty ++ (\<lambda>k. if k \<in> set (concat (chunked ?keys 500)) then sources_in (working c) k else None)"
    by simp_all
  have ex: "existing = (\<lambda>k. if k \<in> set ?keys then sources_in (working c) k else None)"
    unfolding ex0 cc by simp
  have new_iff: "is_new existing ip \<longleftrightarrow> key_of (snd ip) \<notin> ?ids" if "ip \<in> set ?eps" for ip
  proof -
    have "key_of (snd ip) \<in> set (map (\<lambda>ip. key_of (snd ip)) ?eps)" using that by simp
    then have "key_of (snd ip) \<in> set ?keys" by (simp only: keys_enumerate)
    then show ?thesis by (simp add: is_new_def ex sources_in_None)
  qed
  have filt: "filter (is_new existing) ?eps = filter (\<lambda>ip. key_of (snd ip) \<notin> ?ids) ?eps"
    by (rule filter_cong[OF refl]) (rule new_iff)
  note ml = merge_loop_Inr[OF m]
  have w2: "working c2 = map (touch existing source (set ?keys)) (working c)"
    using ml by (simp only: keys_enumerate w1)
  have ins: "inserts = map (\<lambda>ip. new_row source now (fst ip) (snd ip))
         (filter (\<lambda>ip. key_of (snd ip) \<notin> ?ids) ?eps)"
    using ml by (simp only: filt append_Nil)
  have ids_ins: "map row_id inserts = filter (\<lambda>k. k \<notin> ?ids) ?keys"
  proof -
    have "map row_id inserts = map (\<lambda>ip. key_of (snd ip)) (filter (\<lambda>ip. key_of (snd ip) \<notin> ?ids) ?eps)"
      unfolding ins by (simp add: row_id_new_row comp_def)
    also have "\<dots> = filter (\<lambda>k. k \<notin> ?ids) (map (\<lambda>ip. key_of (snd ip)) ?eps)"
      by (simp add: filter_map comp_def)
    finally show ?thesis by (simp only: keys_enumerate)
  qed
  have ids_fresh: "filter (\<lambda>k. k \<notin> ?ids) ?keys
      = map key_of (filter (\<lambda>p. key_of p \<notin> ?ids) prepared)"
    by (simp add: filter_map comp_def)
  have di: "distinct (map row_id inserts)" unfolding ids_ins ids_fresh by (rule fresh)
  have ids2: "map row_id (working c2) = map row_id (working c)"
    unfolding w2 by (simp add: row_id_touch)
  have dj: "set (map row_id inserts) \<inter> set (map row_id (working c2)) = {}"
    unfolding ids2 ids_ins by auto
  obtain c3 where x: "executemany_insert no_faults c2 inserts = Inr c3"
    using executemany_insert_no_faults[OF di dj] by blast
  obtain c4 where k: "commit no_faults c3 = Inr c4" using commit_no_faults by blast
  have "transaction no_faults source now prepared c = Inr (c4, a, du)"
    by (simp add: transaction_def l m x k)
  then show ?thesis by blast
qed

section \<open>Ingesting a batch again\<close>

lemma merge_source_idem: "merge_source K s (merge_source K s r) = merge_source K s r"
  by (simp add: merge_source_def)

lemma merge_source_new_row:
  "merge_source K source (new_row source now i p) = new_row source now i p"
  by (simp add: merge_source_def new_row_def split: prod.splits)

lemma ids_applied:
  "map row_id (applied source now db ps)
     = map row_id db @ filter (\<lambda>k. k \<notin> set (map row_id db)) (map key_of ps)"
proof -
  let ?ids = "set (map row_id db)"
  have "map row_id (map (\<lambda>ip. new_row source now (fst ip) (snd ip))
          (filter (\<lambda>ip. key_of (snd ip) \<notin> ?ids) (enumerate_list ps)))
      = map (\<lambda>ip. key_of (snd ip)) (filter (\<lambda>ip. key_of (snd ip) \<notin> ?ids) (enumerate_list ps))"
    by (simp add: row_id_new_row comp_def)
  also have "\<dots> = filter (\<lambda>k. k \<notin> ?ids) (map (\<lambda>ip. key_of (snd ip)) (enumerate_list ps))"
    by (simp add: filter_map comp_def)
  also have "\<dots> = filter (\<lambda>k. k \<notin> ?ids) (map key_of ps)"
    by (simp only: keys_enumerate)
  finally show ?thesis
    by (simp add: applied_def row_id_merge_source comp_def)
qed

lemma keys_in_applied:
  "p \<in> set ps \<Longrightarrow> key_of p \<in> set (map row_id (applied source now db ps))"
  unfolding ids_applied by auto

lemma applied_idem:
  "applied source now' (applied source now db ps) ps = applied source now db ps"
proof -
  let ?K = "set (map key_of ps)"
  let ?db' = "applied source now db ps"
  have none: "filter (\<lambda>ip. key_of (snd ip) \<notin> set (map row_id ?db')) (enumerate_list ps) = []"
  proof -
    have "key_of (snd ip) \<in> set (map row_id ?db')" if "ip \<in> set (enumerate_list ps)" for ip
    proof -
      obtain i p where ip: "ip = (i, p)" by (cases ip)
      have "(i, p) \<in> set (zip [0 ..< length ps] ps)"
        using that unfolding ip enumerate_list_def .
      then have "p \<in> set ps" by (rule set_zip_rightD)
      then have "snd ip \<in> set ps" by (simp add: ip)
      then show ?thesis by (rule keys_in_applied)
    qed
    then show ?thesis by (simp add: filter_empty_conv)
  qed
  have same: "map (merge_source ?K source) ?db' = ?db'"
    by (simp add: applied_def merge_source_idem merge_source_new_row comp_def)
  show ?thesis
    by (subst applied_def) (simp only: none same list.map append_Nil2)
qed

lemma reingest:
  assumes first: "insert_records U F now db records source = (Inr (added, duplicates, ignored), db')"
    and dd: "distinct (map row_id db)"
  shows "insert_records U no_faults now' db' records source
     = (Inr (0, added + duplicates, ignored), db')"
proof -
  let ?ids = "set (map row_id db)"
  from insert_records_Inr[OF first dd] obtain ps
    where p: "prepare U records = Inr (ps, ignored)"
      and db': "db' = applied source now db ps"
      and a: "added = length (filter (\<lambda>p. key_of p \<notin> ?ids) ps)"
      and d: "duplicates = length (filter (\<lambda>p. key_of p \<in> ?ids) ps)"
      and dist: "distinct (map row_id db')"
    by blast
  have sum: "added + duplicates = length ps"
    unfolding a d using sum_length_filter_compl[of "\<lambda>p. key_of p \<in> ?ids" ps] by simp
  show ?thesis
  proof (cases "records = [] \<or> ps = []")
    case True
    then have "db' = db" "added + duplicates = 0"
      using first p sum db' by (auto simp: insert_records_def applied_Nil)
    then show ?thesis using True p by (auto simp: insert_records_def)
  next
    case False
    let ?c = "get_connection db'"
    have w: "working ?c = db'" by (simp add: get_connection_def)
    have none: "filter (\<lambda>p. key_of p \<notin> set (map row_id db')) ps = []"
      unfolding db' using keys_in_applied[of _ ps source now db]
      by (auto simp: filter_empty_conv)
    have all: "filter (\<lambda>p. key_of p \<in> set (map row_id db')) ps = ps"
      unfolding db' using keys_in_applied[of _ ps source now db]
      by (auto simp: filter_id_conv)
    have "distinct (map key_of (filter (\<lambda>p. key_of p \<notin> set (map row_id (working ?c))) ps))"
      unfolding w none by simp
    moreover have "distinct (map row_id (working ?c))" unfolding w by (rule dist)
    ultimately obtain c' a2 d2
      where t: "transaction no_faults source now' ps ?c = Inr (c', a2, d2)"
      using transaction_no_faults_returns by blast
    have dw: "distinct (map row_id (working ?c))" unfolding w by (rule dist)
    note tr = transaction_Inr[OF t dw, unfolded w]
    have c1: "committed c' = db'"
      using tr unfolding db' by (simp only: applied_idem)
    have a2: "a2 = 0" using tr by (simp only: none list.size)
    have d2: "d2 = length ps" using tr by (simp only: all)
    show ?thesis
      using False p t c1 a2 d2 sum by (simp add: insert_records_def close_def)
  qed
qed

section \<open>The examples, evaluated\<close>

lemmas example_simps = insert_records_def example_tables_def candidate_of_def example_record_def
  example_ignorable_def example_row_def COLUMNS_def ustr_of_def fix_text_def get_field_def
  is_ignored_def IGNORED_DETAIL_PREFIXES_def IGNORED_DETAIL_PREFIXES_RAW_def normalize_detail_def
  strip_def is_space_def startswith_def build_key_def transaction_def key_of_def
  enumerate_list_def get_connection_def select_rows_def storage_op_def no_faults_def
  update_sources_def insert_row_def commit_def close_def new_row_def extract_date_def Let_def
  chunked.simps

lemma example_first_ingest:
  "insert_records example_tables no_faults 1000 [] [example_ignorable, example_record] (ustr_of ''A'')
     = (Inr (1, 0, 1), [example_row [ustr_of ''A''] 1000])"
  by (simp add: example_simps)

lemma example_single_ingest:
  "insert_records example_tables no_faults 1000 [] [example_record] (ustr_of ''A'')
     = (Inr (1, 0, 0), [example_row [ustr_of ''A''] 1000])"
  by (simp add: example_simps)

lemma example_other_file:
  "insert_records example_tables no_faults 2000 [example_row [ustr_of ''A''] 1000]
       [example_record] (ustr_of ''B'')
     = (Inr (0, 1, 0), [example_row [ustr_of ''A'', ustr_of ''B''] 1000])"
  by (simp add: example_simps)

lemma example_same_file:
  "insert_records example_tables no_faults now [example_row [ustr_of ''A''] 1000]
       [example_record] (ustr_of ''A'')
     = (Inr (0, 1, 0), [example_row [ustr_of ''A''] 1000])"
  by (simp add: example_simps)

lemma example_commit_fault:
  "insert_records example_tables (\<lambda>n. n = 2) 2000 [example_row [ustr_of ''A''] 1000]
       [example_record] (ustr_of ''B'')
     = (Inl OperationalError, [example_row [ustr_of ''A''] 1000])"
  by (simp add: example_simps)

lemma example_repeated_in_batch:
  "insert_records example_tables no_faults 1000 [] [example_record, example_record] (ustr_of ''A'')
     = (Inl IntegrityError, [])"
  by (simp add: example_simps)


lemma example_record_kept: "\<not> ignorable example_tables example_record"
  by (simp add: ignorable_def example_simps)

section \<open>Ignored records, merged sources\<close>


lemma sources_new_row: "row_sources (new_row source now i p) = [source]"
  by (simp add: new_row_def split: prod.splits)


lemma merge_on_existing_keys:
  assumes run: "insert_records U F now db records source = (Inr (added, duplicates, ignored), db')"
    and dd: "distinct (map row_id db)"
  shows "\<exists>prepared. prepare U records = Inr (prepared, ignored)
     \<and> take (length db) db' = map (merge_source (set (map key_of prepared)) source) db
     \<and> duplicates = length (filter (\<lambda>p. key_of p \<in> set (map row_id db)) prepared)"
proof -
  from insert_records_Inr[OF run dd] obtain ps
    where p: "prepare U records = Inr (ps, ignored)"
      and db': "db' = applied source now db ps"
      and d: "duplicates = length (filter (\<lambda>p. key_of p \<in> set (map row_id db)) ps)"
    by blast
  have "take (length db) db' = map (merge_source (set (map key_of ps)) source) db"
    unfolding db' applied_def by simp
  then show ?thesis using p d by blast
qed

lemma two_files:
  assumes first: "insert_records U F now [] [r] A = (Inr (1, 0, 0), db1)"
    and ne: "A \<noteq> B"
  shows "\<exists>row. db1 = [row] \<and> row_sources row = [A]
     \<and> insert_records U no_faults now' db1 [r] B = (Inr (0, 1, 0), [row\<lparr>row_sources := [A, B]\<rparr>])"
proof -
  have d0: "distinct (map row_id ([] :: row list))" by simp
  from insert_records_Inr[OF first d0] obtain ps
    where p: "prepare U [r] = Inr (ps, 0)"
      and db1: "db1 = applied A now [] ps"
      and a: "1 = length (filter (\<lambda>p. key_of p \<notin> set (map row_id ([] :: row list))) ps)"
    by blast
  from a have "length ps = 1" by simp
  then obtain q where ps: "ps = [q]" by (cases ps) auto
  let ?row = "new_row A now 0 q"
  have db1': "db1 = [?row]"
    unfolding db1 ps by (simp add: applied_def enumerate_list_def)
  let ?c = "get_connection db1"
  have w: "working ?c = db1" by (simp add: get_connection_def)
  have dw: "distinct (map row_id (working ?c))" unfolding w by (simp add: db1')
  have fresh: "distinct (map key_of (filter (\<lambda>p. key_of p \<notin> set (map row_id (working ?c))) ps))"
    unfolding w by (simp add: db1' ps row_id_new_row)
  obtain c' a2 d2 where t: "transaction no_faults B now' ps ?c = Inr (c', a2, d2)"
    using transaction_no_faults_returns[OF dw fresh] by blast
  note tr = transaction_Inr[OF t dw, unfolded w]
  have c: "committed c' = [?row\<lparr>row_sources := [A, B]\<rparr>]"
    using tr ne unfolding db1' ps
    by (simp add: applied_def enumerate_list_def merge_source_def row_id_new_row sources_new_row)
  have a2: "a2 = 0" using tr unfolding db1' ps by (simp add: row_id_new_row)
  have d2: "d2 = 1" using tr unfolding db1' ps by (simp add: row_id_new_row)
  have "insert_records U no_faults now' db1 [r] B = (Inr (0, 1, 0), [?row\<lparr>row_sources := [A, B]\<rparr>])"
    using p t c a2 d2 ps by (simp add: insert_records_def close_def)
  then show ?thesis using db1' by (simp add: sources_new_row)
qed

section \<open>The claims about the ingestion merge\<close>

text \<open>
  C10: the identity key is the six trimmed field values joined by five delimiters, so it is
  never empty and the drop of a record with an empty key cannot happen; the three counters
  of a merge call that returns add up to the number of candidate records.
\<close>

theorem merge_counters_cover_batch:
  "build_key r =
     strip (get_field r (ustr_of ''EmpRUC'')) @ ustr_of ''||''
     @ strip (get_field r (ustr_of ''EmpRazonSocial'')) @ ustr_of ''||''
     @ strip (get_field r (ustr_of ''EmpNom'')) @ ustr_of ''||''
     @ strip (get_field r (ustr_of ''RepFecha'')) @ ustr_of ''||''
     @ strip (get_field r (ustr_of ''RepLiqEstadoConsulta'')) @ ustr_of ''||''
     @ strip (get_field r (ustr_of ''RepDetalleRechazo''))
   \<and> build_key r \<noteq> []
   \<and> (insert_records U F now db records source = (Inr (added, duplicates, ignored), db')
        \<longrightarrow> added + duplicates + ignored = length records)"
  using build_key_parts[of r] build_key_nonempty[of r] insert_records_counts by blast

theorem merge_counters_cover_batch_witness:
  "insert_records example_tables no_faults 1000 [] [example_ignorable, example_record]
       (ustr_of ''A'')
     = (Inr (1, 0, 1), [example_row [ustr_of ''A''] 1000])
   \<and> (1::nat) + 0 + 1 = length [example_ignorable, example_record]"
  using merge_counters_cover_batch [of example_record example_tables no_faults 1000 "[]"
      "[example_ignorable, example_record]" "ustr_of ''A''" 1 0 1
      "[example_row [ustr_of ''A''] 1000]"]
    example_first_ingest
  by simp



text \<open>
  C8: a merge call that raises, whether from a storage operation that fails at any point of
  the call, from a repeated primary key or from the text repair, leaves the table exactly
  as it was; a call that returns leaves it with every insert and every source merge of the
  batch applied.
\<close>

theorem insert_records_atomic:
  assumes "distinct (map row_id db)"
    and "insert_records U F now db records source = (res, db')"
  shows "case res of
           Inl err \<Rightarrow> db' = db
         | Inr (added, duplicates, ignored) \<Rightarrow>
             (\<exists>prepared. prepare U records = Inr (prepared, ignored)
                \<and> db' = applied source now db prepared)"
proof (cases res)
  case (Inl err)
  then show ?thesis using assms(2) insert_records_Inl by simp
next
  case (Inr counters)
  obtain added duplicates ignored where c: "counters = (added, duplicates, ignored)"
    by (cases counters)
  from insert_records_Inr[OF assms(2)[unfolded Inr c] assms(1)] show ?thesis
    unfolding Inr c by auto
qed

theorem insert_records_atomic_witness:
  "distinct (map row_id [example_row [ustr_of ''A''] 1000])
   \<and> insert_records example_tables (\<lambda>n. n = 2) 2000 [example_row [ustr_of ''A''] 1000]
       [example_record] (ustr_of ''B'')
     = (Inl OperationalError, [example_row [ustr_of ''A''] 1000])
   \<and> insert_records example_tables no_faults 2000 [example_row [ustr_of ''A''] 1000]
       [example_record] (ustr_of ''B'')
     = (Inr (0, 1, 0), [example_row [ustr_of ''A'', ustr_of ''B''] 1000])"
proof -
  have d: "distinct (map row_id [example_row [ustr_of ''A''] 1000])" by simp
  show ?thesis
    using d insert_records_atomic [OF d example_commit_fault]
      insert_records_atomic [OF d example_other_file]
      example_commit_fault example_other_file
    by simp
qed

text \<open>
  C7: in a merge call that returns, each stored row whose key is a key of the batch gets
  the source label appended to its sources unless it is there already, and no stored row
  changes in any other way; the duplicate counter is the number of records of the batch
  whose key was stored. A record ingested from file \<open>A\<close> into the empty table and then from
  a different file \<open>B\<close> is one row with the sources \<open>A\<close>, \<open>B\<close>, counted as added once and as
  duplicate in the second call.
\<close>

theorem duplicate_key_merges_source:
  "(distinct (map row_id db)
      \<and> insert_records U F now db records source = (Inr (added, duplicates, ignored), db')
    \<longrightarrow> (\<exists>prepared. prepare U records = Inr (prepared, ignored)
          \<and> take (length db) db' = map (merge_source (set (map key_of prepared)) source) db
          \<and> duplicates = length (filter (\<lambda>p. key_of p \<in> set (map row_id db)) prepared)))
   \<and> (insert_records U F now [] [r] A = (Inr (1, 0, 0), db1) \<and> A \<noteq> B
    \<longrightarrow> (\<exists>row. db1 = [row] \<and> row_sources row = [A]
          \<and> insert_records U no_faults now' db1 [r] B
              = (Inr (0, 1, 0), [row\<lparr>row_sources := [A, B]\<rparr>])))"
  using merge_on_existing_keys two_files by blast

theorem duplicate_key_merges_source_witness:
  "insert_records example_tables no_faults 1000 [] [example_record] (ustr_of ''A'')
     = (Inr (1, 0, 0), [example_row [ustr_of ''A''] 1000])
   \<and> ustr_of ''A'' \<noteq> ustr_of ''B''
   \<and> insert_records example_tables no_faults 2000 [example_row [ustr_of ''A''] 1000]
       [example_record] (ustr_of ''B'')
     = (Inr (0, 1, 0), [example_row [ustr_of ''A'', ustr_of ''B''] 1000])"
proof -
  have ne: "ustr_of ''A'' \<noteq> ustr_of ''B''" by (simp add: ustr_of_def)
  from duplicate_key_merges_source [of "[]" example_tables no_faults 1000 "[]" "ustr_of ''A''"
      0 0 0 "[]" example_record "ustr_of ''A''" "[example_row [ustr_of ''A''] 1000]"
      "ustr_of ''B''" 2000]
    example_single_ingest ne
  obtain row where "[example_row [ustr_of ''A''] 1000] = [row]"
    and "insert_records example_tables no_faults 2000 [example_row [ustr_of ''A''] 1000]
       [example_record] (ustr_of ''B'') = (Inr (0, 1, 0), [row\<lparr>row_sources := [ustr_of ''A'', ustr_of ''B'']\<rparr>])"
    by blast
  then have "insert_records example_tables no_faults 2000 [example_row [ustr_of ''A''] 1000]
       [example_record] (ustr_of ''B'')
     = (Inr (0, 1, 0), [example_row [ustr_of ''A'', ustr_of ''B''] 1000])"
    by (auto simp: example_row_def)
  then show ?thesis using example_single_ingest ne by simp
qed

text \<open>
  C1, as the code has it: when a merge call returns, the same batch with the same source
  label ingested again (without a storage fault) adds nothing, counts as duplicate every
  record the first call added or counted as duplicate, ignores the same records and leaves
  the table as the first call left it.
\<close>

theorem reingest_adds_nothing:
  assumes "insert_records U F now db records source = (Inr (added, duplicates, ignored), db')"
    and "distinct (map row_id db)"
  shows "insert_records U no_faults now' db' records source
     = (Inr (0, added + duplicates, ignored), db')"
  using assms by (rule reingest)

theorem reingest_adds_nothing_witness:
  "insert_records example_tables no_faults 1000 [] [example_ignorable, example_record]
       (ustr_of ''A'')
     = (Inr (1, 0, 1), [example_row [ustr_of ''A''] 1000])
   \<and> distinct (map row_id ([] :: row list))
   \<and> insert_records example_tables no_faults 5000 [example_row [ustr_of ''A''] 1000]
       [example_ignorable, example_record] (ustr_of ''A'')
     = (Inr (0, 1, 1), [example_row [ustr_of ''A''] 1000])"
proof -
  have d: "distinct (map row_id ([] :: row list))" by simp
  show ?thesis
    using reingest_adds_nothing [OF example_first_ingest d, of 5000] example_first_ingest
    by simp
qed

text \<open>
  C1 as the specification states it fails on a table that already holds the record: the
  first call adds nothing and counts one duplicate, and the second call counts one
  duplicate again, not the zero rows the first call added.
\<close>

theorem reingest_duplicate_is_not_added_count:
  "\<not> (\<forall>added duplicates ignored db1.
        insert_records example_tables no_faults 2000 [example_row [ustr_of ''A''] 1000]
            [example_record] (ustr_of ''A'') = (Inr (added, duplicates, ignored), db1)
        \<longrightarrow> (\<exists>ignored2 db2.
              insert_records example_tables no_faults 3000 db1 [example_record] (ustr_of ''A'')
                = (Inr (0, added, ignored2), db2)))"
proof
  assume a: "\<forall>added duplicates ignored db1.
        insert_records example_tables no_faults 2000 [example_row [ustr_of ''A''] 1000]
            [example_record] (ustr_of ''A'') = (Inr (added, duplicates, ignored), db1)
        \<longrightarrow> (\<exists>ignored2 db2.
              insert_records example_tables no_faults 3000 db1 [example_record] (ustr_of ''A'')
                = (Inr (0, added, ignored2), db2))"
  have "\<exists>ignored2 db2.
      insert_records example_tables no_faults 3000 [example_row [ustr_of ''A''] 1000]
        [example_record] (ustr_of ''A'') = (Inr (0, 0, ignored2), db2)"
    using a example_same_file[of 2000] by blast
  then show False using example_same_file[of 3000] by simp
qed

end
